theory Spec2Isabelle
  imports Main "HOL-Library.Multiset"
begin

section \<open>Grids\<close>

text \<open>
  A grid is the array of nine row arrays that line 253 of main.js creates; a cell holds a
  JavaScript number, here an integer, with 0 for an empty cell.  The nine rows are separate
  arrays that only the closure of generateValidSudoku can reach, so inside the generator a
  grid is a value.  Every index the generator uses is a loop variable in 0..8, so
  \<open>b ! r ! c\<close> is only read on a 9x9 grid with \<open>r, c < 9\<close>; the theorems state
  that as \<open>wf_grid\<close> and index bounds.
\<close>

type_synonym grid = "int list list"

definition wf_grid :: "grid \<Rightarrow> bool" where
  "wf_grid b = (length b = 9 \<and> list_all (\<lambda>row. length row = 9) b)"

text \<open>\<open>board[row][col] = v\<close>\<close>

definition setCell :: "grid \<Rightarrow> nat \<Rightarrow> nat \<Rightarrow> int \<Rightarrow> grid" where
  "setCell b row col v = b[row := (b ! row)[col := v]]"

text \<open>The 81 positions in the order of the nested loops \<open>for row ... for col ...\<close>.\<close>

definition allCells :: "(nat \<times> nat) list" where
  "allCells = concat (map (\<lambda>row. map (\<lambda>col. (row, col)) [0..<9]) [0..<9])"

section \<open>The legality check (isValid, lines 255-276)\<close>

text \<open>Each loop returns false at the first hit, so a loop is an existential over its range.\<close>

definition isValid :: "grid \<Rightarrow> nat \<Rightarrow> nat \<Rightarrow> int \<Rightarrow> bool" where
  "isValid b row col num =
     (if (\<exists>i \<in> set [0..<9]. b ! row ! i = num) then False
      else if (\<exists>i \<in> set [0..<9]. b ! i ! col = num) then False
      else (let boxRow = (row div 3) * 3; boxCol = (col div 3) * 3 in
        if (\<exists>i \<in> set [boxRow..<boxRow + 3]. \<exists>j \<in> set [boxCol..<boxCol + 3]. b ! i ! j = num)
        then False else True))"

text \<open>
  The specification's side of the legality check: \<open>(i, j)\<close> shares a row, a column or a
  3x3 box with \<open>(r, c)\<close>; the value occurs in one of the three groups of \<open>(r, c)\<close>,
  the target cell itself counted (\<open>occursInGroups\<close>) or not (\<open>occursElsewhere\<close>).
\<close>

definition sameGroup :: "nat \<Rightarrow> nat \<Rightarrow> nat \<Rightarrow> nat \<Rightarrow> bool" where
  "sameGroup r c i j = (i = r \<or> j = c \<or> (i div 3 = r div 3 \<and> j div 3 = c div 3))"

definition occursInGroups :: "grid \<Rightarrow> nat \<Rightarrow> nat \<Rightarrow> int \<Rightarrow> bool" where
  "occursInGroups b r c v =
     (\<exists>(i, j) \<in> set allCells. sameGroup r c i j \<and> b ! i ! j = v)"

definition occursElsewhere :: "grid \<Rightarrow> nat \<Rightarrow> nat \<Rightarrow> int \<Rightarrow> bool" where
  "occursElsewhere b r c v =
     (\<exists>(i, j) \<in> set allCells. (i, j) \<noteq> (r, c) \<and> sameGroup r c i j \<and> b ! i ! j = v)"

text \<open>The grid of the specification's scenario: row 0 is 5,3,0,0,7,0,0,0,0, the rest empty.\<close>

definition emptyRow :: "int list" where
  "emptyRow = replicate 9 0"

definition scenarioGrid :: grid where
  "scenarioGrid = [5, 3, 0, 0, 7, 0, 0, 0, 0] # replicate 8 emptyRow"

section \<open>The random source\<close>

text \<open>
  \<open>Math.random()\<close> is the only source of nondeterminism.  It is modelled as an infinite
  sequence of naturals, \<open>s 0, s 1, ...\<close>, that the program consumes from the front; the
  expression \<open>Math.floor(Math.random() * n)\<close>, a number in \<open>0..n-1\<close>, takes the next
  element reduced modulo \<open>n\<close>.  Every theorem below holds for every such sequence unless
  it says otherwise.  \<open>constSource k\<close> is the sequence that is \<open>k\<close> for ever.
\<close>

type_synonym rng = "nat \<Rightarrow> nat"

definition nextDraws :: "rng \<Rightarrow> rng" where
  "nextDraws s = (\<lambda>k. s (Suc k))"

definition randomInt :: "nat \<Rightarrow> rng \<Rightarrow> nat \<times> rng" where
  "randomInt n s = (s 0 mod n, nextDraws s)"

definition constSource :: "nat \<Rightarrow> rng" where
  "constSource k = (\<lambda>i. k)"

section \<open>The solution generator (generateValidSudoku, lines 252-304)\<close>

text \<open>
  Lines 282-286: the candidates 1..9 and the shuffle, \<open>i\<close> running from 8 down to 1.
  The destructuring assignment reads both elements before it writes them.
\<close>

fun shuffleLoop :: "nat \<Rightarrow> int list \<Rightarrow> rng \<Rightarrow> int list \<times> rng" where
  "shuffleLoop 0 nums s = (nums, s)"
| "shuffleLoop (Suc k) nums s =
     (let i = Suc k; (j, s') = randomInt (i + 1) s
      in shuffleLoop k (nums[i := nums ! j, j := nums ! i]) s')"

definition shuffledNums :: "rng \<Rightarrow> int list \<times> rng" where
  "shuffledNums s =
     (let nums = [1, 2, 3, 4, 5, 6, 7, 8, 9] in shuffleLoop (length nums - 1) nums s)"

text \<open>
  \<open>solve\<close> (lines 278-300) mutates the board of its closure and returns a boolean; here it
  takes the board and the random source and returns the boolean with both.  The two outer
  loops look for the first empty cell in row-major order; \<open>tryNums\<close> is the loop over the
  shuffled candidates (lines 288-294), which goes on with the board and the random source
  that the failed recursive call left behind.  The first argument bounds the depth of the
  recursion: \<open>None\<close> means that the bound was too small, and \<open>solve_fuel_mono\<close> shows
  that a result, once there, does not depend on the bound.
\<close>

fun solve :: "nat \<Rightarrow> grid \<Rightarrow> rng \<Rightarrow> (bool \<times> grid \<times> rng) option"
  and tryNums :: "nat \<Rightarrow> grid \<Rightarrow> nat \<Rightarrow> nat \<Rightarrow> int list \<Rightarrow> rng \<Rightarrow> (bool \<times> grid \<times> rng) option"
where
  "solve 0 b s = None"
| "solve (Suc fuel) b s =
     (case find (\<lambda>(row, col). b ! row ! col = 0) allCells of
        None \<Rightarrow> Some (True, b, s)
      | Some (row, col) \<Rightarrow>
          (let (nums, s') = shuffledNums s in tryNums fuel b row col nums s'))"
| "tryNums fuel b row col [] s = Some (False, b, s)"
| "tryNums fuel b row col (num # rest) s =
     (if isValid b row col num then
        (case solve fuel (setCell b row col num) s of
           None \<Rightarrow> None
         | Some (ok, b', s') \<Rightarrow>
             if ok then Some (True, b', s')
             else tryNums fuel (setCell b' row col 0) row col rest s')
      else tryNums fuel b row col rest s)"

definition emptyBoard :: grid where
  "emptyBoard = replicate 9 (replicate 9 0)"

text \<open>Lines 252-304: the result of \<open>solve()\<close> is dropped and the board is returned.\<close>

definition generateValidSudoku :: "nat \<Rightarrow> rng \<Rightarrow> (grid \<times> rng) option" where
  "generateValidSudoku fuel s =
     (case solve fuel emptyBoard s of None \<Rightarrow> None | Some (ok, b, s') \<Rightarrow> Some (b, s'))"

subsection \<open>What a solution is\<close>

definition rowValues :: "grid \<Rightarrow> nat \<Rightarrow> int list" where
  "rowValues b r = map (\<lambda>j. b ! r ! j) [0..<9]"

definition columnValues :: "grid \<Rightarrow> nat \<Rightarrow> int list" where
  "columnValues b c = map (\<lambda>i. b ! i ! c) [0..<9]"

text \<open>The box with origin \<open>(3 * br, 3 * bc)\<close>, for \<open>br, bc\<close> in 0..2.\<close>

definition boxValues :: "grid \<Rightarrow> nat \<Rightarrow> nat \<Rightarrow> int list" where
  "boxValues b br bc = map (\<lambda>k. b ! (3 * br + k div 3) ! (3 * bc + k mod 3)) [0..<9]"

definition perm19 :: "int list \<Rightarrow> bool" where
  "perm19 xs = (length xs = 9 \<and> distinct xs \<and> set xs = {1..9})"

definition solved :: "grid \<Rightarrow> bool" where
  "solved b = (wf_grid b
     \<and> (\<forall>r \<in> {0..<9}. perm19 (rowValues b r))
     \<and> (\<forall>c \<in> {0..<9}. perm19 (columnValues b c))
     \<and> (\<forall>br \<in> {0..<3}. \<forall>bc \<in> {0..<3}. perm19 (boxValues b br bc)))"

text \<open>The number of empty cells and of clues of a grid.\<close>

definition zeros :: "grid \<Rightarrow> nat" where
  "zeros b = length (filter (\<lambda>(r, c). b ! r ! c = 0) allCells)"

definition clues :: "grid \<Rightarrow> nat" where
  "clues b = length (filter (\<lambda>(r, c). b ! r ! c \<noteq> 0) allCells)"

text \<open>A complete grid, used where a theorem needs a concrete solution.\<close>

definition sampleSolution :: grid where
  "sampleSolution =
    [[1, 2, 3, 4, 5, 6, 7, 8, 9],
     [4, 5, 6, 7, 8, 9, 1, 2, 3],
     [7, 8, 9, 1, 2, 3, 4, 5, 6],
     [2, 3, 4, 5, 6, 7, 8, 9, 1],
     [5, 6, 7, 8, 9, 1, 2, 3, 4],
     [8, 9, 1, 2, 3, 4, 5, 6, 7],
     [3, 4, 5, 6, 7, 8, 9, 1, 2],
     [6, 7, 8, 9, 1, 2, 3, 4, 5],
     [9, 1, 2, 3, 4, 5, 6, 7, 8]]"

text \<open>
  A filled grid with one empty cell that no digit fits: row 0 holds 1..8 and column 0
  holds the 9.
\<close>

definition deadEnd :: grid where
  "deadEnd =
    [[0, 1, 2, 3, 4, 5, 6, 7, 8],
     [9, 1, 1, 1, 1, 1, 1, 1, 1],
     [1, 1, 1, 1, 1, 1, 1, 1, 1],
     [1, 1, 1, 1, 1, 1, 1, 1, 1],
     [1, 1, 1, 1, 1, 1, 1, 1, 1],
     [1, 1, 1, 1, 1, 1, 1, 1, 1],
     [1, 1, 1, 1, 1, 1, 1, 1, 1],
     [1, 1, 1, 1, 1, 1, 1, 1, 1],
     [1, 1, 1, 1, 1, 1, 1, 1, 1]]"


subsection \<open>Notions for the correctness of the search\<close>

text \<open>
  A partial grid is consistent when no digit stands twice in a row, a column or a box; it
  extends to a complete grid \<open>t\<close> when each of its cells is empty or agrees with \<open>t\<close>.
\<close>

definition consistent :: "grid \<Rightarrow> bool" where
  "consistent b = (\<forall>(i, j) \<in> set allCells. \<forall>(k, l) \<in> set allCells.
     (i, j) \<noteq> (k, l) \<and> sameGroup i j k l \<and> b ! i ! j \<noteq> 0 \<longrightarrow> b ! i ! j \<noteq> b ! k ! l)"

definition digits :: "grid \<Rightarrow> bool" where
  "digits b = (\<forall>(i, j) \<in> set allCells. 0 \<le> b ! i ! j \<and> b ! i ! j \<le> 9)"

definition full :: "grid \<Rightarrow> bool" where
  "full b = (\<forall>(i, j) \<in> set allCells. b ! i ! j \<noteq> 0)"

definition extends :: "grid \<Rightarrow> grid \<Rightarrow> bool" where
  "extends b t = (\<forall>(i, j) \<in> set allCells. b ! i ! j = 0 \<or> b ! i ! j = t ! i ! j)"

section \<open>The session state (gameState, lines 2-21)\<close>

text \<open>
  JavaScript arrays are objects.  \<open>gameState.board\<close>, \<open>gameState.solution\<close> and
  \<open>gameState.originalBoard\<close> each refer to an outer array of nine row arrays, and
  \<open>board[row][col] = v\<close> writes into a row array that every other reference to that row
  would see.  The row arrays therefore live in a store, by address, and a grid reference is
  the list of the addresses of its rows.  No line of main.js assigns to an element of an
  outer array, so outer arrays are plain values.  The record carries the store
  (\<open>rowStore\<close>, and \<open>nextAddr\<close>, the first address not yet used) next to the fields
  of gameState; a grid field that is still null is the empty list.  The handles of timers
  and of the page (\<open>timerInterval\<close>, \<open>gifTimeout\<close>, \<open>tooltipsShown\<close>) are left
  out.
\<close>

type_synonym addr = nat

type_synonym gridRef = "addr list"

record gameState =
  rowStore :: "addr \<Rightarrow> int list"
  nextAddr :: addr
  currentDifficulty :: "string option"
  board :: gridRef
  solution :: gridRef
  originalBoard :: gridRef
  selectedCell :: "(nat \<times> nat) option"
  mistakes :: int
  score :: int
  timerSeconds :: int
  timerStarted :: bool
  selectedNumber :: "int option"
  errorCells :: "(nat \<times> nat) set"
  notesMode :: bool
  cellNotes :: "(nat \<times> nat) \<Rightarrow> int list option"
  hintsUsed :: int
  maxHints :: int

text \<open>\<open>g[row][col]\<close>, \<open>g[row][col] = v\<close>, and the grid that a reference denotes.\<close>

definition readCell :: "gameState \<Rightarrow> gridRef \<Rightarrow> nat \<Rightarrow> nat \<Rightarrow> int" where
  "readCell gs g row col = rowStore gs (g ! row) ! col"

definition writeCell :: "gameState \<Rightarrow> gridRef \<Rightarrow> nat \<Rightarrow> nat \<Rightarrow> int \<Rightarrow> gameState" where
  "writeCell gs g row col v =
     gs\<lparr>rowStore := (rowStore gs)(g ! row := (rowStore gs (g ! row))[col := v])\<rparr>"

definition gridOf :: "gameState \<Rightarrow> gridRef \<Rightarrow> grid" where
  "gridOf gs g = map (rowStore gs) g"

text \<open>\<open>g.map(row => [...row])\<close>: a new row array for each row, with the row's contents.\<close>

fun copyRows :: "gridRef \<Rightarrow> gameState \<Rightarrow> gridRef \<times> gameState" where
  "copyRows [] gs = ([], gs)"
| "copyRows (a # as) gs =
     (let n = nextAddr gs;
          gs1 = gs\<lparr>rowStore := (rowStore gs)(n := rowStore gs a), nextAddr := Suc n\<rparr>;
          (bs, gs2) = copyRows as gs1
      in (n # bs, gs2))"

text \<open>
  The board that generateValidSudoku built in its closure becomes reachable from the
  session when line 230 stores the returned reference: its rows enter the store.
\<close>

fun storeRows :: "grid \<Rightarrow> gameState \<Rightarrow> gridRef \<times> gameState" where
  "storeRows [] gs = ([], gs)"
| "storeRows (row # rows) gs =
     (let n = nextAddr gs;
          gs1 = gs\<lparr>rowStore := (rowStore gs)(n := row), nextAddr := Suc n\<rparr>;
          (bs, gs2) = storeRows rows gs1
      in (n # bs, gs2))"

section \<open>Deriving the puzzle (generatePuzzle, lines 228-250)\<close>

text \<open>Lines 24-31.  A name that is not a key gives \<open>undefined\<close>, here \<open>None\<close>.\<close>

definition difficulties :: "string \<Rightarrow> int option" where
  "difficulties = map_of
     [(''easy'', 40), (''medium'', 30), (''hard'', 20), (''expert'', 15), (''master'', 12),
      (''extreme'', 8)]"

text \<open>
  The removal loop, lines 238-246.  With \<open>clueCount\<close> undefined, \<open>81 - clueCount\<close> is
  NaN and the comparison is false.  The loop has no bound on its iterations: the result is
  \<open>None\<close> when it runs forever.
\<close>

partial_function (option) removeLoop ::
  "gameState \<Rightarrow> int \<Rightarrow> int option \<Rightarrow> rng \<Rightarrow> (gameState \<times> rng) option" where
  "removeLoop gs removed clueCount s =
     (if (case clueCount of None \<Rightarrow> False | Some n \<Rightarrow> removed < 81 - n) then
        (let row = fst (randomInt 9 s); s1 = snd (randomInt 9 s);
             col = fst (randomInt 9 s1); s2 = snd (randomInt 9 s1)
         in if readCell gs (board gs) row col \<noteq> 0
            then removeLoop (writeCell gs (board gs) row col 0) (removed + 1) clueCount s2
            else removeLoop gs removed clueCount s2)
      else Some (gs, s))"

text \<open>The equation of the loop is also the one to evaluate it by.\<close>

declare removeLoop.simps [code]

text \<open>
  Line 233, \<open>gameState.board = gameState.solution.map(row => [...row])\<close>, and line
  249, \<open>gameState.originalBoard = gameState.board.map(row => [...row])\<close>.
\<close>

definition copySolutionToBoard :: "gameState \<Rightarrow> gameState" where
  "copySolutionToBoard gs = (let (b, gs1) = copyRows (solution gs) gs in gs1\<lparr>board := b\<rparr>)"

definition saveOriginalBoard :: "gameState \<Rightarrow> gameState" where
  "saveOriginalBoard gs = (let (ob, gs1) = copyRows (board gs) gs in gs1\<lparr>originalBoard := ob\<rparr>)"

text \<open>
  Lines 233-249, the part of generatePuzzle that the specification calls derivePuzzle:
  copy the solution into the board, run the removal loop, copy the board into the snapshot.
\<close>

definition derivePuzzle :: "gameState \<Rightarrow> int option \<Rightarrow> rng \<Rightarrow> (gameState \<times> rng) option" where
  "derivePuzzle gs clueCount s =
     (case removeLoop (copySolutionToBoard gs) 0 clueCount s of
        None \<Rightarrow> None
      | Some (gs1, s') \<Rightarrow> Some (saveOriginalBoard gs1, s'))"

definition generatePuzzle ::
  "nat \<Rightarrow> string \<Rightarrow> gameState \<Rightarrow> rng \<Rightarrow> (gameState \<times> rng) option" where
  "generatePuzzle fuel difficulty gs s =
     (case generateValidSudoku fuel s of
        None \<Rightarrow> None
      | Some (sol, s1) \<Rightarrow>
          (let (a, gs1) = storeRows sol gs
           in derivePuzzle (gs1\<lparr>solution := a\<rparr>) (difficulties difficulty) s1))"

section \<open>Player operations\<close>

text \<open>
  selectCell, lines 350-395.  A cell counts as given when the board agrees with the
  solution there and is not empty; such a cell is not selected.
\<close>

definition selectCell :: "gameState \<Rightarrow> nat \<Rightarrow> nat \<Rightarrow> gameState" where
  "selectCell gs row col =
     (let isGivenCell = (readCell gs (solution gs) row col = readCell gs (board gs) row col
                         \<and> readCell gs (board gs) row col \<noteq> 0)
      in if \<not> isGivenCell then gs\<lparr>selectedCell := Some (row, col)\<rparr> else gs)"

text \<open>
  enterNumber, lines 397-469; \<open>number\<close> is the digit after \<open>parseInt\<close>.  After a fourth
  mistake the function schedules a new game and returns; the scheduled call runs later, as
  an event of its own.
\<close>

definition enterNumber :: "gameState \<Rightarrow> (nat \<times> nat) option \<Rightarrow> int \<Rightarrow> gameState" where
  "enterNumber gs cell number =
     (case cell of
        None \<Rightarrow> gs
      | Some (row, col) \<Rightarrow>
          if notesMode gs then
            (let notes = (case cellNotes gs (row, col) of None \<Rightarrow> [] | Some ns \<Rightarrow> ns);
                 notes' = (if number \<in> set notes then filter (\<lambda>n. n \<noteq> number) notes
                           else sort (notes @ [number]))
             in if length notes' > 0
                then gs\<lparr>cellNotes := (cellNotes gs)((row, col) := Some notes')\<rparr>
                else gs\<lparr>cellNotes := (cellNotes gs)((row, col) := None)\<rparr>)
          else
            (let gs1 = (if \<not> timerStarted gs then gs\<lparr>timerStarted := True\<rparr> else gs);
                 gs2 = gs1\<lparr>cellNotes := (cellNotes gs1)((row, col) := None)\<rparr>;
                 gs3 = writeCell gs2 (board gs2) row col number
             in if number \<noteq> readCell gs3 (solution gs3) row col
                then gs3\<lparr>mistakes := mistakes gs3 + 1,
                         errorCells := insert (row, col) (errorCells gs3)\<rparr>
                else gs3\<lparr>score := score gs3 + 10,
                         errorCells := errorCells gs3 - {(row, col)}\<rparr>))"

text \<open>isPuzzleComplete, lines 472-481: false at the first cell that differs.\<close>

definition isPuzzleComplete :: "gameState \<Rightarrow> bool" where
  "isPuzzleComplete gs =
     (if (\<exists>(row, col) \<in> set allCells.
            readCell gs (board gs) row col \<noteq> readCell gs (solution gs) row col)
      then False else True)"

text \<open>eraseCell, lines 512-523.\<close>

definition eraseCell :: "gameState \<Rightarrow> (nat \<times> nat) option \<Rightarrow> gameState" where
  "eraseCell gs cell =
     (case cell of
        None \<Rightarrow> gs
      | Some (row, col) \<Rightarrow>
          if readCell gs (solution gs) row col \<noteq> readCell gs (board gs) row col
          then writeCell gs (board gs) row col 0
          else gs)"

text \<open>resetProgress, lines 531-555.\<close>

definition resetProgress :: "gameState \<Rightarrow> gameState" where
  "resetProgress gs =
     (let (b, gs1) = copyRows (originalBoard gs) gs
      in gs1\<lparr>board := b, mistakes := 0, score := 0, timerSeconds := 0,
             errorCells := {}, cellNotes := Map.empty\<rparr>)"

text \<open>toggleNoteMode, lines 583-596.\<close>

definition toggleNoteMode :: "gameState \<Rightarrow> gameState" where
  "toggleNoteMode gs =
     (let gs1 = gs\<lparr>notesMode := \<not> notesMode gs\<rparr>
      in if notesMode gs1 then gs1\<lparr>selectedCell := None\<rparr> else gs1)"

text \<open>giveHint, lines 598-636.\<close>

definition giveHint :: "gameState \<Rightarrow> rng \<Rightarrow> gameState \<times> rng" where
  "giveHint gs s =
     (if hintsUsed gs \<ge> maxHints gs then (gs, s)
      else
        (let emptyCells = filter (\<lambda>(row, col). readCell gs (board gs) row col = 0) allCells
         in if length emptyCells = 0 then (gs, s)
            else
              (let (k, s') = randomInt (length emptyCells) s;
                   (row, col) = emptyCells ! k;
                   gs1 = writeCell gs (board gs) row col (readCell gs (solution gs) row col)
               in (gs1\<lparr>hintsUsed := hintsUsed gs1 + 1, score := score gs1 + 5\<rparr>, s'))))"

text \<open>
  What the player can do to the board between two games, as the event handlers of lines
  57-143 and 340-342 dispatch it: click a cell of the rendered grid, enter a digit into the
  selected cell, erase the selected cell, ask for a hint, toggle the note mode, and reset
  the progress with the retry button.
\<close>

datatype action = Select nat nat | Enter int | Erase | Hint | ToggleNote | Retry

fun step :: "gameState \<times> rng \<Rightarrow> action \<Rightarrow> gameState \<times> rng" where
  "step (gs, s) (Select row col) = (selectCell gs row col, s)"
| "step (gs, s) (Enter number) = (enterNumber gs (selectedCell gs) number, s)"
| "step (gs, s) Erase = (eraseCell gs (selectedCell gs), s)"
| "step (gs, s) Hint = giveHint gs s"
| "step (gs, s) ToggleNote = (toggleNoteMode gs, s)"
| "step (gs, s) Retry = (resetProgress gs, s)"

definition play :: "gameState \<times> rng \<Rightarrow> action list \<Rightarrow> gameState \<times> rng" where
  "play st acts = foldl step st acts"

text \<open>The rendered grid has a cell for each row and column in 0..8.\<close>

fun onGrid :: "action \<Rightarrow> bool" where
  "onGrid (Select row col) = (row < 9 \<and> col < 9)"
| "onGrid _ = True"

subsection \<open>Well-formed session states\<close>

text \<open>
  The three grids are 9x9, their 27 row arrays are allocated and pairwise different, and
  the selected cell, if any, is on the grid.  \<open>solutionStored\<close> is the part of it that
  holds before the puzzle is derived.
\<close>

definition solutionStored :: "gameState \<Rightarrow> bool" where
  "solutionStored gs =
     (length (solution gs) = 9 \<and> distinct (solution gs)
      \<and> (\<forall>a \<in> set (solution gs). a < nextAddr gs \<and> length (rowStore gs a) = 9))"

definition selectedOnGrid :: "gameState \<Rightarrow> bool" where
  "selectedOnGrid gs =
     (case selectedCell gs of None \<Rightarrow> True | Some (row, col) \<Rightarrow> row < 9 \<and> col < 9)"

definition sessionOk :: "gameState \<Rightarrow> bool" where
  "sessionOk gs =
     (length (board gs) = 9 \<and> length (solution gs) = 9 \<and> length (originalBoard gs) = 9
      \<and> distinct (board gs @ solution gs @ originalBoard gs)
      \<and> (\<forall>a \<in> set (board gs @ solution gs @ originalBoard gs).
            a < nextAddr gs \<and> length (rowStore gs a) = 9)
      \<and> selectedOnGrid gs)"

text \<open>
  For the removal loop: the board is 9x9 with nine different row arrays (\<open>boardOk\<close>), and
  \<open>gs'\<close> comes from \<open>gs\<close> by writing into rows of the board only, each cell being
  left as it was or set to 0 (\<open>zeroedFrom\<close>).
\<close>

definition boardOk :: "gameState \<Rightarrow> bool" where
  "boardOk gs =
     (length (board gs) = 9 \<and> distinct (board gs)
      \<and> (\<forall>a \<in> set (board gs). length (rowStore gs a) = 9))"

definition zeroedFrom :: "gameState \<Rightarrow> gameState \<Rightarrow> bool" where
  "zeroedFrom gs gs' =
     (boardOk gs' \<and> gs' = gs\<lparr>rowStore := rowStore gs'\<rparr>
      \<and> (\<forall>a. a \<notin> set (board gs) \<longrightarrow> rowStore gs' a = rowStore gs a)
      \<and> (\<forall>(i, j) \<in> set allCells.
            readCell gs' (board gs') i j = 0
            \<or> readCell gs' (board gs') i j = readCell gs (board gs) i j))"

text \<open>
  \<open>gs'\<close> is well formed and has the solution and the snapshot of \<open>gs\<close>: the same
  references, denoting the same grids.
\<close>

definition keeps :: "gameState \<Rightarrow> gameState \<Rightarrow> bool" where
  "keeps gs gs' =
     (sessionOk gs' \<and> solution gs' = solution gs \<and> originalBoard gs' = originalBoard gs
      \<and> gridOf gs' (solution gs') = gridOf gs (solution gs)
      \<and> gridOf gs' (originalBoard gs') = gridOf gs (originalBoard gs))"

text \<open>The puzzle that a derivation returns, when it returns.\<close>

definition puzzleOf :: "(gameState \<times> rng) option \<Rightarrow> grid option" where
  "puzzleOf res = map_option (\<lambda>(gs, s). gridOf gs (board gs)) res"

subsection \<open>Random sources for the removal loop\<close>

text \<open>
  The cell that the \<open>m\<close>-th iteration of the removal loop draws from the source \<open>s\<close>,
  the set of cells that its first \<open>M\<close> iterations draw, and the number of different cells
  among them.  \<open>sweep\<close> goes through the cells in row-major order, over and over;
  \<open>stutter\<close> draws the cell (0,0) twice and then goes on as \<open>sweep\<close> does, which starts
  with (0,0) once more.
\<close>

definition drawnCell :: "rng \<Rightarrow> nat \<Rightarrow> nat \<times> nat" where
  "drawnCell s m = (s (2 * m) mod 9, s (2 * m + 1) mod 9)"

definition drawnCells :: "rng \<Rightarrow> nat \<Rightarrow> (nat \<times> nat) set" where
  "drawnCells s M = set (map (drawnCell s) [0..<M])"

definition differentCells :: "rng \<Rightarrow> nat \<Rightarrow> nat" where
  "differentCells s M = card (drawnCells s M)"

definition sweep :: rng where
  "sweep = (\<lambda>n. if even n then n div 18 else n div 2)"

definition stutter :: rng where
  "stutter = (\<lambda>n. if n < 4 then 0 else sweep (n - 4))"

text \<open>A session state that holds \<open>sampleSolution\<close> as its solution and nothing else.\<close>

definition blankState :: gameState where
  "blankState = \<lparr>rowStore = (\<lambda>a. []), nextAddr = 0, currentDifficulty = None, board = [],
     solution = [], originalBoard = [], selectedCell = None, mistakes = 0, score = 0,
     timerSeconds = 0, timerStarted = False, selectedNumber = None, errorCells = {},
     notesMode = False, cellNotes = Map.empty, hintsUsed = 0, maxHints = 3\<rparr>"

definition sampleState :: gameState where
  "sampleState = (let (a, gs) = storeRows sampleSolution blankState in gs\<lparr>solution := a\<rparr>)"

text \<open>
  A session in play: \<open>sampleSolution\<close> in rows 0..8 of the store, the board in rows 9..17
  and the snapshot in rows 18..26, both with the clue at (0,0) removed, and the cell (0,0)
  selected.
\<close>

definition sampleSession :: gameState where
  "sampleSession = blankState
     \<lparr>rowStore := (\<lambda>a. if a < 9 then sampleSolution ! a
                       else if a = 9 \<or> a = 18 then [0, 2, 3, 4, 5, 6, 7, 8, 9]
                       else if a < 18 then sampleSolution ! (a - 9)
                       else if a < 27 then sampleSolution ! (a - 18)
                       else []),
      nextAddr := 27, board := [9..<18], solution := [0..<9], originalBoard := [18..<27],
      selectedCell := Some (0, 0)\<rparr>"

section \<open>Facts about the legality check\<close>

lemma set_allCells: "set allCells = {(i, j). i < 9 \<and> j < 9}"
  by (auto simp: allCells_def)

lemma div3_eq: "(i div 3 = q) = (q * 3 \<le> i \<and> i < q * 3 + 3)" for i q :: nat
  by linarith

lemma box_range:
  "r < 9 \<Longrightarrow> (r div 3 * 3 \<le> i \<and> i < r div 3 * 3 + 3) = (i < 9 \<and> i div 3 = r div 3)"
  for r i :: nat
proof -
  assume "r < 9"
  then have "r div 3 < 3" by linarith
  then have "i < r div 3 * 3 + 3 \<Longrightarrow> i < 9" by linarith
  then show ?thesis unfolding div3_eq [of i "r div 3"] by blast
qed

lemma isValid_iff:
  assumes "r < 9" "c < 9"
  shows "isValid b r c v = (\<not> occursInGroups b r c v)"
proof -
  have row: "(\<exists>i \<in> set [0..<9]. b ! r ! i = v) = (\<exists>j<9. b ! r ! j = v)"
    by (simp add: Bex_def)
  have col: "(\<exists>i \<in> set [0..<9]. b ! i ! c = v) = (\<exists>i<9. b ! i ! c = v)"
    by (simp add: Bex_def)
  have box: "(\<exists>i \<in> set [r div 3 * 3..<r div 3 * 3 + 3].
               \<exists>j \<in> set [c div 3 * 3..<c div 3 * 3 + 3]. b ! i ! j = v)
           = (\<exists>i<9. \<exists>j<9. i div 3 = r div 3 \<and> j div 3 = c div 3 \<and> b ! i ! j = v)"
    unfolding Bex_def set_upt atLeastLessThan_iff
      box_range [OF assms(1)] box_range [OF assms(2)] by blast
  have og: "occursInGroups b r c v =
     ((\<exists>j<9. b ! r ! j = v) \<or> (\<exists>i<9. b ! i ! c = v)
      \<or> (\<exists>i<9. \<exists>j<9. i div 3 = r div 3 \<and> j div 3 = c div 3 \<and> b ! i ! j = v))"
    unfolding occursInGroups_def set_allCells sameGroup_def Bex_def
    using assms by (simp only: mem_Collect_eq split_paired_Ex prod.case) blast
  show ?thesis
    unfolding isValid_def Let_def row col box og by (simp only: if_False if_True split: if_splits) blast
qed

lemma occursInGroups_split:
  assumes "r < 9" "c < 9"
  shows "occursInGroups b r c v = (b ! r ! c = v \<or> occursElsewhere b r c v)"
  unfolding occursInGroups_def occursElsewhere_def set_allCells sameGroup_def Bex_def
  using assms by (simp only: mem_Collect_eq split_paired_Ex prod.case prod.inject) blast

text \<open>
  C1.  \<open>solve\<close> is the only caller of the legality check (line 289), and it asks about a
  cell that is empty (the guard of line 281) and a digit 1..9.  On a 9x9 grid, for a row
  and a column in 0..8, an empty target cell and a value in 1..9, the check returns false
  exactly when the value occurs elsewhere in the row, the column or the 3x3 box of the
  target cell.
\<close>

theorem isValid_legality:
  assumes "wf_grid b" "r < 9" "c < 9" "1 \<le> v" "v \<le> 9" "b ! r ! c = 0"
  shows "(\<not> isValid b r c v) = occursElsewhere b r c v"
  using isValid_iff [OF assms(2,3), of b v] occursInGroups_split [OF assms(2,3), of b v]
    assms(4,6)
  by auto

lemma wf_scenarioGrid: "wf_grid scenarioGrid"
  by code_simp

lemma scenario_five_occurs: "occursElsewhere scenarioGrid 0 2 5"
  by code_simp

lemma scenario_nine_absent: "\<not> occursElsewhere scenarioGrid 0 2 9"
  by code_simp

text \<open>The scenario of the specification: at (0,2), 5 is refused and 9 is accepted.\<close>

theorem isValid_legality_witness:
  "wf_grid scenarioGrid \<and> (0::nat) < 9 \<and> (2::nat) < 9 \<and> scenarioGrid ! 0 ! 2 = 0
   \<and> \<not> isValid scenarioGrid 0 2 5 \<and> occursElsewhere scenarioGrid 0 2 5
   \<and> isValid scenarioGrid 0 2 9 \<and> \<not> occursElsewhere scenarioGrid 0 2 9"
proof -
  have c: "scenarioGrid ! 0 ! 2 = 0"
    by (simp add: scenarioGrid_def)
  show ?thesis
    using isValid_legality [OF wf_scenarioGrid _ _ _ _ c, of 5]
      isValid_legality [OF wf_scenarioGrid _ _ _ _ c, of 9]
      wf_scenarioGrid c scenario_five_occurs scenario_nine_absent by simp
qed

section \<open>Facts about the solution generator\<close>

subsection \<open>Cells, updates and the scan for the first empty cell\<close>

lemma wf_length: "wf_grid b \<Longrightarrow> length b = 9"
  by (simp add: wf_grid_def)

lemma wf_row_length: "wf_grid b \<Longrightarrow> r < 9 \<Longrightarrow> length (b ! r) = 9"
  by (simp add: wf_grid_def list_all_length)

lemma distinct_allCells: "distinct allCells"
  by code_simp

lemma mem_allCells: "((i, j) \<in> set allCells) = (i < 9 \<and> j < 9)"
  by (simp add: set_allCells)

lemma setCell_nth:
  assumes "wf_grid b" "r < 9" "c < 9" "i < 9" "j < 9"
  shows "setCell b r c v ! i ! j = (if i = r \<and> j = c then v else b ! i ! j)"
  using assms wf_length [OF assms(1)] wf_row_length [OF assms(1,2)]
  by (simp add: setCell_def nth_list_update)

lemma wf_setCell: "wf_grid b \<Longrightarrow> wf_grid (setCell b r c v)"
  by (cases "r < length b") (auto simp: wf_grid_def setCell_def list_all_length nth_list_update)

lemma setCell_setCell: "setCell (setCell b r c x) r c y = setCell b r c y"
  by (cases "r < length b") (simp_all add: setCell_def list_update_beyond)

lemma setCell_same: "setCell b r c (b ! r ! c) = b"
  by (simp add: setCell_def)

lemma setCell_restore: "b ! r ! c = 0 \<Longrightarrow> setCell (setCell b r c x) r c 0 = b"
  using setCell_same [of b r c] by (simp add: setCell_setCell)

lemma find_empty_None:
  "find (\<lambda>(row, col). b ! row ! col = 0) allCells = None \<Longrightarrow> r < 9 \<Longrightarrow> c < 9 \<Longrightarrow> b ! r ! c \<noteq> 0"
  by (auto simp: find_None_iff set_allCells)

lemma find_empty_Some:
  "find (\<lambda>(row, col). b ! row ! col = 0) allCells = Some (r, c) \<Longrightarrow> r < 9 \<and> c < 9 \<and> b ! r ! c = 0"
  using mem_allCells [of r c] by (auto simp: find_Some_iff dest: nth_mem)

subsection \<open>The shuffle and the count of empty cells\<close>

lemma randomInt_less: "0 < n \<Longrightarrow> fst (randomInt n s) < n"
  by (simp add: randomInt_def)

lemma shuffleLoop_mset:
  "k < length nums \<Longrightarrow> mset (fst (shuffleLoop k nums s)) = mset nums"
proof (induction k arbitrary: nums s)
  case 0
  then show ?case by simp
next
  case (Suc k)
  obtain j s' where r: "randomInt (Suc k + 1) s = (j, s')" by (cases "randomInt (Suc k + 1) s")
  have "j < Suc k + 1" using randomInt_less [of "Suc k + 1" s] r by simp
  with Suc.prems have j: "j < length nums" by simp
  have "mset (nums[Suc k := nums ! j, j := nums ! Suc k]) = mset nums"
    using Suc.prems j by (simp add: mset_swap)
  moreover have "k < length (nums[Suc k := nums ! j, j := nums ! Suc k])"
    using Suc.prems by simp
  ultimately show ?case
    using Suc.IH [of "nums[Suc k := nums ! j, j := nums ! Suc k]" s'] r by simp
qed

lemma shuffledNums_set: "set (fst (shuffledNums s)) = {1..9}"
proof -
  have "mset (fst (shuffledNums s)) = mset [1, 2, 3, 4, 5, 6, 7, 8, 9 :: int]"
    unfolding shuffledNums_def Let_def by (rule shuffleLoop_mset) simp
  then have "set (fst (shuffledNums s)) = set [1, 2, 3, 4, 5, 6, 7, 8, 9 :: int]"
    by (rule mset_eq_setD)
  also have "\<dots> = {1..9}" by auto
  finally show ?thesis .
qed

lemma zeros_card: "zeros b = card {(r, c). r < 9 \<and> c < 9 \<and> b ! r ! c = 0}"
proof -
  have "zeros b = card ({(r, c). b ! r ! c = 0} \<inter> set allCells)"
    unfolding zeros_def by (rule distinct_length_filter [OF distinct_allCells])
  also have "{(r, c). b ! r ! c = 0} \<inter> set allCells = {(r, c). r < 9 \<and> c < 9 \<and> b ! r ! c = 0}"
    by (auto simp: set_allCells)
  finally show ?thesis .
qed

lemma finite_cells: "finite {(r, c). r < (9::nat) \<and> c < (9::nat) \<and> P r c}"
  by (rule finite_subset [of _ "{..<9} \<times> {..<9}"]) auto

lemma zeros_setCell:
  assumes "wf_grid b" "r < 9" "c < 9" "b ! r ! c = 0" "v \<noteq> 0"
  shows "zeros (setCell b r c v) < zeros b"
proof -
  let ?Z = "{(i, j). i < 9 \<and> j < 9 \<and> b ! i ! j = 0}"
  have eq: "{(i, j). i < 9 \<and> j < 9 \<and> setCell b r c v ! i ! j = 0} = ?Z - {(r, c)}"
    using assms by (auto simp: setCell_nth split: if_splits)
  have "(r, c) \<in> ?Z"
    using assms by simp
  then have "card (?Z - {(r, c)}) < card ?Z"
    by (rule card_Diff1_less [OF finite_cells])
  then show ?thesis
    unfolding zeros_card eq .
qed

lemma zeros_emptyBoard: "zeros emptyBoard = 81"
  by code_simp

lemma wf_emptyBoard: "wf_grid emptyBoard"
  by code_simp

lemma isValid_zero: "r < 9 \<Longrightarrow> c < 9 \<Longrightarrow> b ! r ! c = 0 \<Longrightarrow> \<not> isValid b r c 0"
  unfolding isValid_def by auto

subsection \<open>A failed search restores the board\<close>

lemma solve_restores_aux:
  "wf_grid b \<Longrightarrow> solve fuel b s = Some (ok, b', s') \<Longrightarrow> wf_grid b' \<and> (\<not> ok \<longrightarrow> b' = b)"
  "wf_grid b2 \<Longrightarrow> r < 9 \<Longrightarrow> c < 9 \<Longrightarrow> b2 ! r ! c = 0 \<Longrightarrow>
     tryNums fuel2 b2 r c nums s2 = Some (ok2, b2', s2') \<Longrightarrow> wf_grid b2' \<and> (\<not> ok2 \<longrightarrow> b2' = b2)"
proof (induction fuel b s and fuel2 b2 r c nums s2 arbitrary: ok b' s' and ok2 b2' s2'
    rule: solve_tryNums.induct)
  case (1 b s)
  then show ?case by simp
next
  case (2 fuel b s)
  show ?case
  proof (cases "find (\<lambda>(row, col). b ! row ! col = 0) allCells")
    case None
    with "2.prems" show ?thesis by simp
  next
    case (Some p)
    obtain row col where p: "p = (row, col)" by (cases p)
    obtain nums s1 where sh: "shuffledNums s = (nums, s1)" by (cases "shuffledNums s")
    have cell: "row < 9 \<and> col < 9 \<and> b ! row ! col = 0"
      using find_empty_Some [OF Some [unfolded p]] by simp
    have "tryNums fuel b row col nums s1 = Some (ok, b', s')"
      using "2.prems"(2) Some p sh by simp
    then show ?thesis
      using "2.IH" [OF Some p [symmetric] refl sh [symmetric] "2.prems"(1)] cell by simp
  qed
next
  case (3 fuel b row col s)
  then show ?case by simp
next
  case (4 fuel b row col num rest s)
  show ?case
  proof (cases "isValid b row col num")
    case False
    with "4.prems" have "tryNums fuel b row col rest s = Some (ok2, b2', s2')" by simp
    then show ?thesis
      using "4.IH"(3) [OF False "4.prems"(1-4)] by simp
  next
    case True
    note valid = this
    have wf1: "wf_grid (setCell b row col num)"
      using "4.prems"(1) by (rule wf_setCell)
    show ?thesis
    proof (cases "solve fuel (setCell b row col num) s")
      case None
      with True "4.prems"(5) show ?thesis by simp
    next
      case (Some res)
      obtain ok1 b1 s1 where res: "res = (ok1, b1, s1)" by (cases res)
      have sv: "solve fuel (setCell b row col num) s = Some (ok1, b1, s1)"
        using Some res by simp
      have r1: "wf_grid b1 \<and> (\<not> ok1 \<longrightarrow> b1 = setCell b row col num)"
        using "4.IH"(1) [OF True wf1 sv] .
      show ?thesis
      proof (cases ok1)
        case True
        with valid sv "4.prems"(5) r1 show ?thesis by simp
      next
        case False
        have undo: "setCell b1 row col 0 = b"
          using r1 False setCell_restore [OF "4.prems"(4)] by simp
        have "tryNums fuel b row col rest s1 = Some (ok2, b2', s2')"
          using valid sv False undo "4.prems"(5) by simp
        then show ?thesis
          using "4.IH"(2) [OF valid Some res [symmetric] refl False]
            undo "4.prems"(1-4) by simp
      qed
    qed
  qed
qed

subsection \<open>Termination and independence of the depth bound\<close>

lemma solve_terminates_aux:
  "wf_grid b \<Longrightarrow> zeros b < fuel \<Longrightarrow> solve fuel b s \<noteq> None"
  "wf_grid b2 \<Longrightarrow> r < 9 \<Longrightarrow> c < 9 \<Longrightarrow> b2 ! r ! c = 0 \<Longrightarrow> zeros b2 \<le> fuel2 \<Longrightarrow>
     tryNums fuel2 b2 r c nums s2 \<noteq> None"
proof (induction fuel b s and fuel2 b2 r c nums s2 rule: solve_tryNums.induct)
  case (1 b s)
  then show ?case by simp
next
  case (2 fuel b s)
  show ?case
  proof (cases "find (\<lambda>(row, col). b ! row ! col = 0) allCells")
    case None
    then show ?thesis by simp
  next
    case (Some p)
    obtain row col where p: "p = (row, col)" by (cases p)
    obtain nums s1 where sh: "shuffledNums s = (nums, s1)" by (cases "shuffledNums s")
    have cell: "row < 9" "col < 9" "b ! row ! col = 0"
      using find_empty_Some [OF Some [unfolded p]] by simp_all
    have "zeros b \<le> fuel" using "2.prems"(2) by simp
    then have "tryNums fuel b row col nums s1 \<noteq> None"
      using "2.IH" [OF Some p [symmetric] refl sh [symmetric] "2.prems"(1) cell] by simp
    then show ?thesis
      using Some p sh by simp
  qed
next
  case (3 fuel b row col s)
  then show ?case by simp
next
  case (4 fuel b row col num rest s)
  show ?case
  proof (cases "isValid b row col num")
    case False
    then show ?thesis
      using "4.IH"(3) [OF False "4.prems"] by simp
  next
    case True
    note valid = this
    have wf1: "wf_grid (setCell b row col num)"
      using "4.prems"(1) by (rule wf_setCell)
    have "num \<noteq> 0"
      using valid isValid_zero [OF "4.prems"(2-4)] by auto
    then have "zeros (setCell b row col num) < zeros b"
      using zeros_setCell [OF "4.prems"(1-4)] by simp
    then have less: "zeros (setCell b row col num) < fuel"
      using "4.prems"(5) by simp
    have "solve fuel (setCell b row col num) s \<noteq> None"
      using "4.IH"(1) [OF valid wf1 less] .
    then obtain res where Some: "solve fuel (setCell b row col num) s = Some res" by auto
    obtain ok1 b1 s1 where res: "res = (ok1, b1, s1)" by (cases res)
    have sv: "solve fuel (setCell b row col num) s = Some (ok1, b1, s1)"
      using Some res by simp
    show ?thesis
    proof (cases ok1)
      case True
      with valid sv show ?thesis by simp
    next
      case False
      have "b1 = setCell b row col num"
        using solve_restores_aux(1) [OF wf1 sv] False by simp
      then have undo: "setCell b1 row col 0 = b"
        using setCell_restore [OF "4.prems"(4)] by simp
      have "tryNums fuel b row col rest s1 \<noteq> None"
        using "4.IH"(2) [OF valid Some res [symmetric] refl False] undo "4.prems" by simp
      then show ?thesis
        using valid sv False undo by simp
    qed
  qed
qed

lemma solve_fuel_mono_aux:
  "solve fuel b s = Some res \<Longrightarrow> fuel \<le> fuel' \<Longrightarrow> solve fuel' b s = Some res"
  "tryNums fuel2 b2 r c nums s2 = Some res2 \<Longrightarrow> fuel2 \<le> fuel2' \<Longrightarrow>
     tryNums fuel2' b2 r c nums s2 = Some res2"
proof (induction fuel b s and fuel2 b2 r c nums s2 arbitrary: res fuel' and res2 fuel2'
    rule: solve_tryNums.induct)
  case (1 b s)
  then show ?case by simp
next
  case (2 fuel b s)
  obtain f where f: "fuel' = Suc f" "fuel \<le> f"
    using "2.prems"(2) by (cases fuel') simp_all
  show ?case
  proof (cases "find (\<lambda>(row, col). b ! row ! col = 0) allCells")
    case None
    with "2.prems"(1) f show ?thesis by simp
  next
    case (Some p)
    obtain row col where p: "p = (row, col)" by (cases p)
    obtain nums s1 where sh: "shuffledNums s = (nums, s1)" by (cases "shuffledNums s")
    have "tryNums fuel b row col nums s1 = Some res"
      using "2.prems"(1) Some p sh by simp
    then have "tryNums f b row col nums s1 = Some res"
      using "2.IH" [OF Some p [symmetric] refl sh [symmetric] _ f(2)] by simp
    then show ?thesis
      using Some p sh f by simp
  qed
next
  case (3 fuel b row col s)
  then show ?case by simp
next
  case (4 fuel b row col num rest s)
  show ?case
  proof (cases "isValid b row col num")
    case False
    then show ?thesis
      using "4.IH"(3) [OF False _ "4.prems"(2)] "4.prems"(1) by simp
  next
    case True
    note valid = this
    show ?thesis
    proof (cases "solve fuel (setCell b row col num) s")
      case None
      with valid "4.prems"(1) show ?thesis by simp
    next
      case (Some r1)
      obtain ok1 b1 s1 where r1: "r1 = (ok1, b1, s1)" by (cases r1)
      have sv: "solve fuel2' (setCell b row col num) s = Some (ok1, b1, s1)"
        using "4.IH"(1) [OF valid Some "4.prems"(2)] r1 by simp
      show ?thesis
      proof (cases ok1)
        case True
        have "tryNums fuel b row col (num # rest) s = Some (True, b1, s1)"
          using valid Some r1 True by simp
        then have "res2 = (True, b1, s1)"
          using "4.prems"(1) by simp
        then show ?thesis
          using valid sv True by simp
      next
        case False
        have "tryNums fuel (setCell b1 row col 0) row col rest s1 = Some res2"
          using valid Some r1 False "4.prems"(1) by simp
        then have "tryNums fuel2' (setCell b1 row col 0) row col rest s1 = Some res2"
          using "4.IH"(2) [OF valid Some r1 [symmetric] refl False _ "4.prems"(2)] by simp
        then show ?thesis
          using valid sv False by simp
      qed
    qed
  qed
qed

subsection \<open>Placing a legal digit keeps the grid consistent\<close>

lemma sameGroup_sym: "sameGroup i j k l = sameGroup k l i j"
  unfolding sameGroup_def by auto

lemma ball_allCells: "(\<forall>(i, j) \<in> set allCells. P i j) = (\<forall>i<9. \<forall>j<9. P i j)"
  by (auto simp: set_allCells)

lemma bex_allCells: "(\<exists>(i, j) \<in> set allCells. P i j) = (\<exists>i<9. \<exists>j<9. P i j)"
  by (auto simp: set_allCells)

lemma consistentD:
  "consistent b \<Longrightarrow> i < 9 \<Longrightarrow> j < 9 \<Longrightarrow> k < 9 \<Longrightarrow> l < 9 \<Longrightarrow> (i, j) \<noteq> (k, l) \<Longrightarrow>
     sameGroup i j k l \<Longrightarrow> b ! i ! j \<noteq> 0 \<Longrightarrow> b ! i ! j \<noteq> b ! k ! l"
  unfolding consistent_def ball_allCells by blast

lemma consistentI:
  "(\<And>i j k l. i < 9 \<Longrightarrow> j < 9 \<Longrightarrow> k < 9 \<Longrightarrow> l < 9 \<Longrightarrow> (i, j) \<noteq> (k, l) \<Longrightarrow>
     sameGroup i j k l \<Longrightarrow> b ! i ! j \<noteq> 0 \<Longrightarrow> b ! i ! j \<noteq> b ! k ! l) \<Longrightarrow> consistent b"
  unfolding consistent_def ball_allCells by blast

lemma digitsD: "digits b \<Longrightarrow> i < 9 \<Longrightarrow> j < 9 \<Longrightarrow> 0 \<le> b ! i ! j \<and> b ! i ! j \<le> 9"
  unfolding digits_def ball_allCells by blast

lemma fullD: "full b \<Longrightarrow> i < 9 \<Longrightarrow> j < 9 \<Longrightarrow> b ! i ! j \<noteq> 0"
  unfolding full_def ball_allCells by blast

lemma extendsD: "extends b t \<Longrightarrow> i < 9 \<Longrightarrow> j < 9 \<Longrightarrow> b ! i ! j = 0 \<or> b ! i ! j = t ! i ! j"
  unfolding extends_def ball_allCells by blast

lemma not_occursInGroupsD:
  "\<not> occursInGroups b r c v \<Longrightarrow> i < 9 \<Longrightarrow> j < 9 \<Longrightarrow> sameGroup r c i j \<Longrightarrow> b ! i ! j \<noteq> v"
  unfolding occursInGroups_def bex_allCells by blast

lemma consistent_setCell:
  assumes wf: "wf_grid b" and rc: "r < 9" "c < 9" and con: "consistent b"
    and valid: "isValid b r c v"
  shows "consistent (setCell b r c v)"
proof (rule consistentI)
  fix i j k l
  assume b: "i < 9" "j < 9" "k < 9" "l < 9" and ne: "(i, j) \<noteq> (k, l)"
    and g: "sameGroup i j k l" and nz: "setCell b r c v ! i ! j \<noteq> 0"
  have absent: "\<not> occursInGroups b r c v"
    using valid isValid_iff [OF rc] by simp
  show "setCell b r c v ! i ! j \<noteq> setCell b r c v ! k ! l"
  proof (cases "(i, j) = (r, c)")
    case True
    then have "(k, l) \<noteq> (r, c)" using ne by auto
    moreover have "b ! k ! l \<noteq> v"
      using not_occursInGroupsD [OF absent b(3,4)] g True by simp
    ultimately show ?thesis
      using True wf rc b by (auto simp: setCell_nth)
  next
    case False
    note ij = this
    show ?thesis
    proof (cases "(k, l) = (r, c)")
      case True
      have "b ! i ! j \<noteq> v"
        using not_occursInGroupsD [OF absent b(1,2)] g True sameGroup_sym [of r c i j] by simp
      then show ?thesis
        using True ij wf rc b by (auto simp: setCell_nth)
    next
      case False
      then show ?thesis
        using ij nz consistentD [OF con b ne g] wf rc b by (auto simp: setCell_nth)
    qed
  qed
qed

lemma digits_setCell:
  assumes "wf_grid b" "r < 9" "c < 9" "digits b" "0 \<le> v" "v \<le> 9"
  shows "digits (setCell b r c v)"
proof -
  have "0 \<le> setCell b r c v ! i ! j \<and> setCell b r c v ! i ! j \<le> 9" if "i < 9" "j < 9" for i j
    using digitsD [OF assms(4) that] assms(5,6) by (simp add: setCell_nth [OF assms(1-3) that])
  then show ?thesis
    unfolding digits_def ball_allCells by blast
qed

lemma extends_setCell:
  assumes "wf_grid b" "r < 9" "c < 9" "extends b t"
  shows "extends (setCell b r c (t ! r ! c)) t"
proof -
  have "setCell b r c (t ! r ! c) ! i ! j = 0 \<or> setCell b r c (t ! r ! c) ! i ! j = t ! i ! j"
    if "i < 9" "j < 9" for i j
    using extendsD [OF assms(4) that] by (auto simp add: setCell_nth [OF assms(1-3) that])
  then show ?thesis
    unfolding extends_def ball_allCells by blast
qed

lemma emptyBoard_nth: "i < 9 \<Longrightarrow> j < 9 \<Longrightarrow> emptyBoard ! i ! j = 0"
  by (simp add: emptyBoard_def)

lemma extends_emptyBoard: "extends emptyBoard t"
  unfolding extends_def ball_allCells using emptyBoard_nth by blast

lemma consistent_emptyBoard: "consistent emptyBoard"
  by (rule consistentI) (simp add: emptyBoard_nth)

lemma digits_emptyBoard: "digits emptyBoard"
  unfolding digits_def ball_allCells using emptyBoard_nth by simp

subsection \<open>Permutations of 1..9 and box indices\<close>

lemma perm19I:
  assumes "length xs = 9" "distinct xs" "set xs \<subseteq> {1..9}"
  shows "perm19 xs"
proof -
  have "card (set xs) = 9"
    using assms(1,2) by (simp add: distinct_card)
  then have "card (set xs) = card {1..9::int}" by simp
  then have "set xs = {1..9}"
    using assms(3) by (intro card_subset_eq) simp_all
  then show ?thesis
    using assms(1,2) by (simp add: perm19_def)
qed

lemma perm19_map:
  assumes inj: "\<And>k k'. k < 9 \<Longrightarrow> k' < 9 \<Longrightarrow> k \<noteq> k' \<Longrightarrow> f k \<noteq> f k'"
    and rng: "\<And>k. k < 9 \<Longrightarrow> 1 \<le> f k \<and> f k \<le> 9"
  shows "perm19 (map f [0..<9])"
proof (rule perm19I)
  show "length (map f [0..<9]) = 9" by simp
  have "inj_on f {0..<9}"
    unfolding inj_on_def using inj by (metis atLeastLessThan_iff)
  then show "distinct (map f [0..<9])"
    by (simp add: distinct_map)
  show "set (map f [0..<9]) \<subseteq> {1..9}"
    using rng by auto
qed

lemma perm19_nth_distinct:
  "perm19 (map f [0..<9]) \<Longrightarrow> k < 9 \<Longrightarrow> k' < 9 \<Longrightarrow> k \<noteq> k' \<Longrightarrow> f k \<noteq> (f k' :: int)"
  unfolding perm19_def by (auto simp: distinct_map inj_on_def)

lemma perm19_nth_range:
  "perm19 (map f [0..<9]) \<Longrightarrow> k < 9 \<Longrightarrow> 1 \<le> f k \<and> f k \<le> (9::int)"
proof -
  assume p: "perm19 (map f [0..<9])" and k: "k < 9"
  have "f k \<in> set (map f [0..<9])" using k by simp
  then have "f k \<in> {1..9}" using p by (simp only: perm19_def)
  then show ?thesis by simp
qed

lemma box_index_div: "(3 * (i mod 3) + j mod 3) div 3 = i mod 3" for i j :: nat
  by simp

lemma box_index_mod: "(3 * (i mod 3) + j mod 3) mod 3 = j mod 3" for i j :: nat
  by simp

lemma box_index_less: "3 * (i mod 3) + j mod 3 < 9" for i j :: nat
proof -
  have "i mod 3 < 3" "j mod 3 < 3" by simp_all
  then show ?thesis by linarith
qed

lemma box_cell: "3 * (i div 3) + (3 * (i mod 3) + j mod 3) div 3 = i" for i j :: nat
  by (simp add: box_index_div)

lemma box_cell2: "3 * (j div 3) + (3 * (i mod 3) + j mod 3) mod 3 = j" for i j :: nat
  by (simp add: box_index_mod)

lemma box_index_inj:
  fixes i j k l :: nat
  assumes "3 * (i mod 3) + j mod 3 = 3 * (k mod 3) + l mod 3" "i div 3 = k div 3" "j div 3 = l div 3"
  shows "i = k \<and> j = l"
proof -
  have "i mod 3 = k mod 3"
    using arg_cong [OF assms(1), of "\<lambda>x. x div 3"] by (simp only: box_index_div)
  moreover have "j mod 3 = l mod 3"
    using arg_cong [OF assms(1), of "\<lambda>x. x mod 3"] by (simp only: box_index_mod)
  ultimately show ?thesis
    using assms(2,3) by (metis div_mult_mod_eq)
qed

subsection \<open>Solutions\<close>

lemma solved_rows: "solved t \<Longrightarrow> r < 9 \<Longrightarrow> perm19 (map (\<lambda>j. t ! r ! j) [0..<9])"
  unfolding solved_def rowValues_def by simp

lemma solved_columns: "solved t \<Longrightarrow> c < 9 \<Longrightarrow> perm19 (map (\<lambda>i. t ! i ! c) [0..<9])"
  unfolding solved_def columnValues_def by simp

lemma solved_boxes:
  "solved t \<Longrightarrow> br < 3 \<Longrightarrow> bc < 3 \<Longrightarrow>
     perm19 (map (\<lambda>k. t ! (3 * br + k div 3) ! (3 * bc + k mod 3)) [0..<9])"
  unfolding solved_def boxValues_def by simp

lemma solved_range:
  assumes "solved t" "i < 9" "j < 9"
  shows "1 \<le> t ! i ! j \<and> t ! i ! j \<le> 9"
  using perm19_nth_range [OF solved_rows [OF assms(1,2)] assms(3)] .

lemma solved_distinct:
  assumes t: "solved t" and b: "i < 9" "j < 9" "k < 9" "l < 9"
    and ne: "(i, j) \<noteq> (k, l)" and g: "sameGroup i j k l"
  shows "t ! i ! j \<noteq> t ! k ! l"
proof -
  consider (row) "k = i" | (col) "l = j" | (box) "k div 3 = i div 3" "l div 3 = j div 3"
    using g unfolding sameGroup_def by blast
  then show ?thesis
  proof cases
    case row
    then have "j \<noteq> l" using ne by simp
    then show ?thesis
      using perm19_nth_distinct [OF solved_rows [OF t b(1)] b(2,4)] row by simp
  next
    case col
    then have "i \<noteq> k" using ne by simp
    then show ?thesis
      using perm19_nth_distinct [OF solved_columns [OF t b(2)] b(1,3)] col by simp
  next
    case box
    let ?f = "\<lambda>n. t ! (3 * (i div 3) + n div 3) ! (3 * (j div 3) + n mod 3)"
    let ?m = "3 * (i mod 3) + j mod 3"
    let ?n = "3 * (k mod 3) + l mod 3"
    have "i div 3 < 3" "j div 3 < 3" using b(1,2) by linarith+
    then have p: "perm19 (map ?f [0..<9])"
      by (rule solved_boxes [OF t])
    have "?m \<noteq> ?n"
      using box_index_inj [of i j k l] box ne by auto
    then have "?f ?m \<noteq> ?f ?n"
      by (rule perm19_nth_distinct [OF p box_index_less box_index_less])
    moreover have "?f ?m = t ! i ! j"
      by (simp only: box_cell box_cell2)
    moreover have "?f ?n = t ! k ! l"
      unfolding box(1) [symmetric] box(2) [symmetric] by (simp only: box_cell box_cell2)
    ultimately show ?thesis by simp
  qed
qed

lemma isValid_solution_digit:
  assumes t: "solved t" and e: "extends b t" and rc: "r < 9" "c < 9" and z: "b ! r ! c = 0"
  shows "isValid b r c (t ! r ! c)"
proof -
  have "b ! i ! j \<noteq> t ! r ! c" if ij: "i < 9" "j < 9" and g: "sameGroup r c i j" for i j
  proof
    assume eq: "b ! i ! j = t ! r ! c"
    have nz: "t ! r ! c \<noteq> 0" using solved_range [OF t rc] by simp
    then have "(r, c) \<noteq> (i, j)" using eq z by auto
    moreover have "b ! i ! j = t ! i ! j" using extendsD [OF e ij] eq nz by simp
    ultimately show False
      using solved_distinct [OF t rc ij _ g] eq by simp
  qed
  then have "\<not> occursInGroups b r c (t ! r ! c)"
    unfolding occursInGroups_def bex_allCells by blast
  then show ?thesis
    using isValid_iff [OF rc] by simp
qed

lemma box_member:
  fixes br k :: nat
  assumes "br < 3" "k < 9"
  shows "3 * br + k div 3 < 9 \<and> (3 * br + k div 3) div 3 = br"
proof -
  have "k div 3 < 3" using assms(2) by linarith
  then show ?thesis using assms(1) by auto
qed

lemma box_member2:
  fixes bc k :: nat
  assumes "bc < 3"
  shows "3 * bc + k mod 3 < 9 \<and> (3 * bc + k mod 3) div 3 = bc"
proof -
  have "k mod 3 < 3" by simp
  then show ?thesis using assms(1) by auto
qed

lemma full_consistent_solved:
  assumes wf: "wf_grid b" and f: "full b" and con: "consistent b" and d: "digits b"
  shows "solved b"
proof -
  have rng: "1 \<le> b ! i ! j \<and> b ! i ! j \<le> 9" if "i < 9" "j < 9" for i j
    using digitsD [OF d that] fullD [OF f that] by simp
  have rows: "perm19 (rowValues b r)" if r: "r < 9" for r
    unfolding rowValues_def
  proof (rule perm19_map)
    fix k k' :: nat
    assume "k < 9" "k' < 9" "k \<noteq> k'"
    then show "b ! r ! k \<noteq> b ! r ! k'"
      using consistentD [OF con r _ r, of k k'] fullD [OF f r] by (simp add: sameGroup_def)
  qed (simp add: rng r)
  have cols: "perm19 (columnValues b c)" if c: "c < 9" for c
    unfolding columnValues_def
  proof (rule perm19_map)
    fix k k' :: nat
    assume "k < 9" "k' < 9" "k \<noteq> k'"
    then show "b ! k ! c \<noteq> b ! k' ! c"
      using consistentD [OF con _ c _ c, of k k'] fullD [OF f _ c] by (simp add: sameGroup_def)
  qed (simp add: rng c)
  have boxes: "perm19 (boxValues b br bc)" if br: "br < 3" and bc: "bc < 3" for br bc
    unfolding boxValues_def
  proof (rule perm19_map)
    fix k k' :: nat
    assume k: "k < 9" "k' < 9" "k \<noteq> k'"
    let ?i = "3 * br + k div 3" and ?j = "3 * bc + k mod 3"
    let ?i' = "3 * br + k' div 3" and ?j' = "3 * bc + k' mod 3"
    have ne: "(?i, ?j) \<noteq> (?i', ?j')"
    proof
      assume "(?i, ?j) = (?i', ?j')"
      then have "k div 3 = k' div 3" "k mod 3 = k' mod 3" by simp_all
      then have "k = k'" by (metis div_mult_mod_eq)
      with k(3) show False by simp
    qed
    have g: "sameGroup ?i ?j ?i' ?j'"
      using box_member [OF br k(1)] box_member [OF br k(2)]
        box_member2 [OF bc, of k] box_member2 [OF bc, of k']
      by (simp add: sameGroup_def)
    show "b ! ?i ! ?j \<noteq> b ! ?i' ! ?j'"
      using consistentD [OF con _ _ _ _ ne g] fullD [OF f, of ?i ?j]
        box_member [OF br k(1)] box_member [OF br k(2)]
        box_member2 [OF bc, of k] box_member2 [OF bc, of k'] by simp
  next
    fix k :: nat
    assume "k < 9"
    then show "1 \<le> b ! (3 * br + k div 3) ! (3 * bc + k mod 3)
        \<and> b ! (3 * br + k div 3) ! (3 * bc + k mod 3) \<le> 9"
      using rng box_member [OF br] box_member2 [OF bc, of k] by simp
  qed
  show ?thesis
    unfolding solved_def using wf rows cols boxes by simp
qed

lemma solved_sampleSolution: "solved sampleSolution"
  by code_simp

subsection \<open>Soundness and completeness of the search\<close>

lemma solve_sound_aux:
  "wf_grid b \<Longrightarrow> consistent b \<Longrightarrow> digits b \<Longrightarrow> solve fuel b s = Some (True, b', s') \<Longrightarrow>
     full b' \<and> consistent b' \<and> digits b'"
  "wf_grid b2 \<Longrightarrow> consistent b2 \<Longrightarrow> digits b2 \<Longrightarrow> r < 9 \<Longrightarrow> c < 9 \<Longrightarrow> b2 ! r ! c = 0 \<Longrightarrow>
     set nums \<subseteq> {1..9} \<Longrightarrow> tryNums fuel2 b2 r c nums s2 = Some (True, b2', s2') \<Longrightarrow>
     full b2' \<and> consistent b2' \<and> digits b2'"
proof (induction fuel b s and fuel2 b2 r c nums s2 arbitrary: b' s' and b2' s2'
    rule: solve_tryNums.induct)
  case (1 b s)
  then show ?case by simp
next
  case (2 fuel b s)
  show ?case
  proof (cases "find (\<lambda>(row, col). b ! row ! col = 0) allCells")
    case None
    have "full b"
      unfolding full_def ball_allCells using find_empty_None [OF None] by blast
    moreover have "b' = b" using "2.prems"(4) None by simp
    ultimately show ?thesis using "2.prems"(2,3) by simp
  next
    case (Some p)
    obtain row col where p: "p = (row, col)" by (cases p)
    obtain nums s1 where sh: "shuffledNums s = (nums, s1)" by (cases "shuffledNums s")
    have cell: "row < 9" "col < 9" "b ! row ! col = 0"
      using find_empty_Some [OF Some [unfolded p]] by simp_all
    have nums: "set nums \<subseteq> {1..9}"
      using shuffledNums_set [of s] sh by simp
    have "tryNums fuel b row col nums s1 = Some (True, b', s')"
      using "2.prems"(4) Some p sh by simp
    then show ?thesis
      using "2.IH" [OF Some p [symmetric] refl sh [symmetric] "2.prems"(1-3) cell nums] by simp
  qed
next
  case (3 fuel b row col s)
  then show ?case by simp
next
  case (4 fuel b row col num rest s)
  have rest: "set rest \<subseteq> {1..9}" and num: "1 \<le> num" "num \<le> 9"
    using "4.prems"(7) by simp_all
  show ?case
  proof (cases "isValid b row col num")
    case False
    with "4.prems"(8) have "tryNums fuel b row col rest s = Some (True, b2', s2')" by simp
    then show ?thesis
      using "4.IH"(3) [OF False "4.prems"(1-6) rest] by simp
  next
    case True
    note valid = this
    have wf1: "wf_grid (setCell b row col num)"
      using "4.prems"(1) by (rule wf_setCell)
    have con1: "consistent (setCell b row col num)"
      using consistent_setCell [OF "4.prems"(1,4,5,2) valid] .
    have dig1: "digits (setCell b row col num)"
      using digits_setCell [OF "4.prems"(1,4,5,3)] num by simp
    show ?thesis
    proof (cases "solve fuel (setCell b row col num) s")
      case None
      with valid "4.prems"(8) show ?thesis by simp
    next
      case (Some res)
      obtain ok1 b1 s1 where res: "res = (ok1, b1, s1)" by (cases res)
      have sv: "solve fuel (setCell b row col num) s = Some (ok1, b1, s1)"
        using Some res by simp
      show ?thesis
      proof (cases ok1)
        case True
        have "b2' = b1 \<and> s2' = s1"
          using valid sv True "4.prems"(8) by simp
        then show ?thesis
          using "4.IH"(1) [OF valid wf1 con1 dig1, of b1 s1] sv True by simp
      next
        case False
        have "b1 = setCell b row col num"
          using solve_restores_aux(1) [OF wf1 sv] False by simp
        then have undo: "setCell b1 row col 0 = b"
          using setCell_restore [OF "4.prems"(6)] by simp
        have "tryNums fuel b row col rest s1 = Some (True, b2', s2')"
          using valid sv False undo "4.prems"(8) by simp
        then show ?thesis
          using "4.IH"(2) [OF valid Some res [symmetric] refl False] undo "4.prems"(1-6) rest
          by simp
      qed
    qed
  qed
qed

lemma solve_complete_aux:
  "solved t \<Longrightarrow> wf_grid b \<Longrightarrow> extends b t \<Longrightarrow> zeros b < fuel \<Longrightarrow>
     \<exists>b' s'. solve fuel b s = Some (True, b', s')"
  "solved t \<Longrightarrow> wf_grid b2 \<Longrightarrow> extends b2 t \<Longrightarrow> r < 9 \<Longrightarrow> c < 9 \<Longrightarrow> b2 ! r ! c = 0 \<Longrightarrow>
     zeros b2 \<le> fuel2 \<Longrightarrow> t ! r ! c \<in> set nums \<Longrightarrow>
     \<exists>b' s'. tryNums fuel2 b2 r c nums s2 = Some (True, b', s')"
proof (induction fuel b s and fuel2 b2 r c nums s2 rule: solve_tryNums.induct)
  case (1 b s)
  then show ?case by simp
next
  case (2 fuel b s)
  show ?case
  proof (cases "find (\<lambda>(row, col). b ! row ! col = 0) allCells")
    case None
    then show ?thesis by simp
  next
    case (Some p)
    obtain row col where p: "p = (row, col)" by (cases p)
    obtain nums s1 where sh: "shuffledNums s = (nums, s1)" by (cases "shuffledNums s")
    have cell: "row < 9" "col < 9" "b ! row ! col = 0"
      using find_empty_Some [OF Some [unfolded p]] by simp_all
    have "set nums = {1..9}"
      using shuffledNums_set [of s] sh by simp
    then have cand: "t ! row ! col \<in> set nums"
      using solved_range [OF "2.prems"(1) cell(1,2)] by simp
    have z: "zeros b \<le> fuel" using "2.prems"(4) by simp
    have "\<exists>b' s'. tryNums fuel b row col nums s1 = Some (True, b', s')"
      using "2.IH" [OF Some p [symmetric] refl sh [symmetric] "2.prems"(1-3) cell z cand] .
    then show ?thesis
      using Some p sh by simp
  qed
next
  case (3 fuel b row col s)
  then show ?case by simp
next
  case (4 fuel b row col num rest s)
  note t = "4.prems"(1) and wf = "4.prems"(2) and e = "4.prems"(3)
    and cell = "4.prems"(4-6) and z = "4.prems"(7)
  have good: "isValid b row col (t ! row ! col)"
    using isValid_solution_digit [OF t e cell] .
  show ?case
  proof (cases "isValid b row col num")
    case False
    then have "num \<noteq> t ! row ! col" using good by auto
    then have "t ! row ! col \<in> set rest" using "4.prems"(8) by auto
    then show ?thesis
      using "4.IH"(3) [OF False t wf e cell z] False by simp
  next
    case True
    note valid = this
    have wf1: "wf_grid (setCell b row col num)"
      using wf by (rule wf_setCell)
    have "num \<noteq> 0"
      using valid isValid_zero [OF cell] by auto
    then have "zeros (setCell b row col num) < zeros b"
      using zeros_setCell [OF wf cell] by simp
    then have less: "zeros (setCell b row col num) < fuel"
      using z by simp
    have "solve fuel (setCell b row col num) s \<noteq> None"
      using solve_terminates_aux(1) [OF wf1 less] .
    then obtain res where Some: "solve fuel (setCell b row col num) s = Some res" by auto
    obtain ok1 b1 s1 where res: "res = (ok1, b1, s1)" by (cases res)
    have sv: "solve fuel (setCell b row col num) s = Some (ok1, b1, s1)"
      using Some res by simp
    show ?thesis
    proof (cases ok1)
      case True
      with valid sv show ?thesis by simp
    next
      case False
      have "num \<noteq> t ! row ! col"
      proof
        assume eq: "num = t ! row ! col"
        have "extends (setCell b row col num) t"
          unfolding eq using extends_setCell [OF wf cell(1,2) e] .
        then have "\<exists>b' s'. solve fuel (setCell b row col num) s = Some (True, b', s')"
          using "4.IH"(1) [OF valid t wf1 _ less] by simp
        then show False using sv False by simp
      qed
      then have cand: "t ! row ! col \<in> set rest" using "4.prems"(8) by auto
      have "b1 = setCell b row col num"
        using solve_restores_aux(1) [OF wf1 sv] False by simp
      then have undo: "setCell b1 row col 0 = b"
        using setCell_restore [OF cell(3)] by simp
      have "\<exists>b' s'. tryNums fuel b row col rest s1 = Some (True, b', s')"
        using "4.IH"(2) [OF valid Some res [symmetric] refl False t] undo wf e cell z cand
        by simp
      then show ?thesis
        using valid sv False undo by simp
    qed
  qed
qed

section \<open>The generator: claims C2, C6 and C7\<close>

lemma solve_restores:
  "wf_grid b \<Longrightarrow> solve fuel b s = Some (ok, b', s') \<Longrightarrow> wf_grid b' \<and> (\<not> ok \<longrightarrow> b' = b)"
  by (rule solve_restores_aux(1))

lemma solve_fuel_mono:
  "solve fuel b s = Some res \<Longrightarrow> fuel \<le> fuel' \<Longrightarrow> solve fuel' b s = Some res"
  by (rule solve_fuel_mono_aux(1))

lemma solve_emptyBoard:
  assumes "82 \<le> fuel"
  shows "\<exists>b s'. solve fuel emptyBoard s = Some (True, b, s') \<and> solved b"
proof -
  have "zeros emptyBoard < fuel"
    using assms by (simp add: zeros_emptyBoard)
  then obtain b s' where sv: "solve fuel emptyBoard s = Some (True, b, s')"
    using solve_complete_aux(1) [OF solved_sampleSolution wf_emptyBoard extends_emptyBoard]
    by blast
  have "full b \<and> consistent b \<and> digits b"
    using solve_sound_aux(1) [OF wf_emptyBoard consistent_emptyBoard digits_emptyBoard sv] .
  moreover have "wf_grid b"
    using solve_restores [OF wf_emptyBoard sv] by simp
  ultimately have "solved b"
    using full_consistent_solved by simp
  with sv show ?thesis by blast
qed

lemma tryNums_all_invalid:
  "\<forall>n \<in> set nums. \<not> isValid b r c n \<Longrightarrow> tryNums fuel b r c nums s = Some (False, b, s)"
  by (induction nums) simp_all

lemma deadEnd_no_candidate: "\<forall>n \<in> {1..9}. \<not> isValid deadEnd 0 0 n"
  by code_simp

lemma wf_deadEnd: "wf_grid deadEnd"
  by code_simp

lemma zeros_deadEnd: "zeros deadEnd = 1"
  by code_simp

lemma deadEnd_first_empty: "find (\<lambda>(row, col). deadEnd ! row ! col = 0) allCells = Some (0, 0)"
  by code_simp

lemma solve_deadEnd: "\<exists>s'. solve (Suc (Suc 0)) deadEnd s = Some (False, deadEnd, s')"
proof -
  obtain nums s1 where sh: "shuffledNums s = (nums, s1)" by (cases "shuffledNums s")
  have "set nums = {1..9}" using shuffledNums_set [of s] sh by simp
  then have "tryNums (Suc 0) deadEnd 0 0 nums s1 = Some (False, deadEnd, s1)"
    using deadEnd_no_candidate by (intro tryNums_all_invalid) simp
  then show ?thesis
    using deadEnd_first_empty sh by simp
qed

lemma generateValidSudoku_result:
  assumes "generateValidSudoku fuel s = Some (b, s')"
  shows "solved b"
proof -
  obtain ok where sv: "solve fuel emptyBoard s = Some (ok, b, s')"
    using assms unfolding generateValidSudoku_def by (auto split: option.splits)
  have "solve (max fuel 82) emptyBoard s = Some (ok, b, s')"
    using solve_fuel_mono [OF sv] by simp
  moreover obtain b1 s1 where "solve (max fuel 82) emptyBoard s = Some (True, b1, s1)" "solved b1"
    using solve_emptyBoard [of "max fuel 82" s] by auto
  ultimately show "solved b" by simp
qed

text \<open>
  C2.  Every grid that generateValidSudoku returns is complete and valid: each cell holds a
  digit 1..9, and each row, each column and each of the nine 3x3 boxes is a permutation of
  1..9.  This holds for every random source.
\<close>

theorem generateValidSudoku_solved:
  assumes "generateValidSudoku fuel s = Some (b, s')"
  shows "solved b \<and> (\<forall>(r, c) \<in> set allCells. 1 \<le> b ! r ! c \<and> b ! r ! c \<le> 9)"
proof -
  have "solved b" using generateValidSudoku_result [OF assms] .
  then show ?thesis
    unfolding ball_allCells using solved_range by blast
qed

theorem generateValidSudoku_solved_witness:
  "\<exists>b s'. generateValidSudoku 82 (constSource 0) = Some (b, s') \<and> solved b
     \<and> (\<forall>(r, c) \<in> set allCells. 1 \<le> b ! r ! c \<and> b ! r ! c \<le> 9)"
proof -
  obtain b s' where "solve 82 emptyBoard (constSource 0) = Some (True, b, s')"
    using solve_emptyBoard [of 82 "constSource 0"] by auto
  then have "generateValidSudoku 82 (constSource 0) = Some (b, s')"
    by (simp add: generateValidSudoku_def)
  then show ?thesis
    using generateValidSudoku_solved [of 82 "constSource 0" b s'] by blast
qed

text \<open>
  C6.  Started on the all-zero grid, the search terminates for every random source (a depth
  bound of 82, one more than the number of cells, is never reached), its top-level call
  returns true, and the grid it leaves is complete and valid.
\<close>

theorem solve_empty_succeeds:
  assumes "82 \<le> fuel"
  shows "\<exists>b s'. solve fuel emptyBoard s = Some (True, b, s') \<and> solved b \<and> full b"
proof -
  obtain b s' where sv: "solve fuel emptyBoard s = Some (True, b, s')" and "solved b"
    using solve_emptyBoard [OF assms, of s] by auto
  moreover have "full b"
    using solve_sound_aux(1) [OF wf_emptyBoard consistent_emptyBoard digits_emptyBoard sv] by simp
  ultimately show ?thesis by blast
qed

theorem solve_empty_succeeds_witness:
  "(82::nat) \<le> 82 \<and> (\<exists>b s'. solve 82 emptyBoard (constSource 0) = Some (True, b, s') \<and> solved b \<and> full b)"
  using solve_empty_succeeds [of 82 "constSource 0"] by simp

text \<open>
  C7.  On every 9x9 grid, partially filled or not, \<open>solve\<close> terminates with a boolean
  (a depth bound above the number of empty cells is never reached), and when that boolean
  is false the grid is exactly as it was at entry.
\<close>

theorem solve_failure_restores:
  assumes "wf_grid b" "zeros b < fuel"
  shows "\<exists>ok b' s'. solve fuel b s = Some (ok, b', s') \<and> (\<not> ok \<longrightarrow> b' = b)"
proof -
  obtain res where "solve fuel b s = Some res"
    using solve_terminates_aux(1) [OF assms, of s] by auto
  then obtain ok b' s' where sv: "solve fuel b s = Some (ok, b', s')"
    by (cases res) auto
  then show ?thesis
    using solve_restores [OF assms(1) sv] by blast
qed

theorem solve_failure_restores_witness:
  "wf_grid deadEnd \<and> zeros deadEnd < Suc (Suc 0)
   \<and> (\<exists>s'. solve (Suc (Suc 0)) deadEnd (constSource 0) = Some (False, deadEnd, s'))"
  using solve_failure_restores [OF wf_deadEnd, of "Suc (Suc 0)" "constSource 0"]
    solve_deadEnd [of "constSource 0"] wf_deadEnd zeros_deadEnd by simp

section \<open>Facts about the derivation of the puzzle\<close>

subsection \<open>Copying rows in the store\<close>

lemma copyRows_spec:
  "copyRows as gs = (bs, gs') \<Longrightarrow>
     bs = [nextAddr gs ..< nextAddr gs + length as]
     \<and> gs' = gs\<lparr>rowStore := rowStore gs', nextAddr := nextAddr gs + length as\<rparr>
     \<and> (\<forall>a < nextAddr gs. rowStore gs' a = rowStore gs a)
     \<and> ((\<forall>a \<in> set as. a < nextAddr gs) \<longrightarrow> map (rowStore gs') bs = map (rowStore gs) as)"
proof (induction as arbitrary: gs bs gs')
  case Nil
  then show ?case by simp
next
  case (Cons a as)
  let ?n = "nextAddr gs"
  let ?gs1 = "gs\<lparr>rowStore := (rowStore gs)(?n := rowStore gs a), nextAddr := Suc ?n\<rparr>"
  obtain bs1 gs2 where rec: "copyRows as ?gs1 = (bs1, gs2)" by (cases "copyRows as ?gs1")
  have res: "bs = ?n # bs1" "gs' = gs2"
    using Cons.prems rec by (simp_all add: Let_def)
  note ih = Cons.IH [OF rec]
  have bs1: "bs1 = [Suc ?n ..< Suc ?n + length as]" using ih by simp
  have gs2: "gs2 = ?gs1\<lparr>rowStore := rowStore gs2, nextAddr := Suc ?n + length as\<rparr>"
    using ih by simp
  have old: "\<forall>x < Suc ?n. rowStore gs2 x = rowStore ?gs1 x" using ih by simp
  have "[?n ..< ?n + length (a # as)] = ?n # [Suc ?n ..< Suc ?n + length as]"
    by (simp add: upt_conv_Cons del: upt_Suc)
  then have c1: "bs = [?n ..< ?n + length (a # as)]"
    using res(1) bs1 by simp
  have c2: "gs' = gs\<lparr>rowStore := rowStore gs', nextAddr := ?n + length (a # as)\<rparr>"
    unfolding res(2) by (subst gs2) simp
  have c3: "\<forall>x < ?n. rowStore gs' x = rowStore gs x"
    unfolding res(2) using old by simp
  have c4: "map (rowStore gs') bs = map (rowStore gs) (a # as)" if lt: "\<forall>x \<in> set (a # as). x < ?n"
  proof -
    have "\<forall>x \<in> set as. x < nextAddr ?gs1" using lt by auto
    then have "map (rowStore gs2) bs1 = map (rowStore ?gs1) as" using ih by blast
    also have "\<dots> = map (rowStore gs) as" using lt by auto
    finally have tl: "map (rowStore gs2) bs1 = map (rowStore gs) as" .
    have "rowStore gs2 ?n = rowStore gs a" using old by simp
    then show ?thesis unfolding res using tl by simp
  qed
  show ?case using c1 c2 c3 c4 by blast
qed

lemma storeRows_spec:
  "storeRows rows gs = (bs, gs') \<Longrightarrow>
     bs = [nextAddr gs ..< nextAddr gs + length rows]
     \<and> gs' = gs\<lparr>rowStore := rowStore gs', nextAddr := nextAddr gs + length rows\<rparr>
     \<and> (\<forall>a < nextAddr gs. rowStore gs' a = rowStore gs a)
     \<and> map (rowStore gs') bs = rows"
proof (induction rows arbitrary: gs bs gs')
  case Nil
  then show ?case by simp
next
  case (Cons row rows)
  let ?n = "nextAddr gs"
  let ?gs1 = "gs\<lparr>rowStore := (rowStore gs)(?n := row), nextAddr := Suc ?n\<rparr>"
  obtain bs1 gs2 where rec: "storeRows rows ?gs1 = (bs1, gs2)" by (cases "storeRows rows ?gs1")
  have res: "bs = ?n # bs1" "gs' = gs2"
    using Cons.prems rec by (simp_all add: Let_def)
  note ih = Cons.IH [OF rec]
  have bs1: "bs1 = [Suc ?n ..< Suc ?n + length rows]" using ih by simp
  have gs2: "gs2 = ?gs1\<lparr>rowStore := rowStore gs2, nextAddr := Suc ?n + length rows\<rparr>"
    using ih by simp
  have old: "\<forall>x < Suc ?n. rowStore gs2 x = rowStore ?gs1 x" using ih by simp
  have "[?n ..< ?n + length (row # rows)] = ?n # [Suc ?n ..< Suc ?n + length rows]"
    by (simp add: upt_conv_Cons del: upt_Suc)
  then have c1: "bs = [?n ..< ?n + length (row # rows)]"
    using res(1) bs1 by simp
  have c2: "gs' = gs\<lparr>rowStore := rowStore gs', nextAddr := ?n + length (row # rows)\<rparr>"
    unfolding res(2) by (subst gs2) simp
  have c3: "\<forall>x < ?n. rowStore gs' x = rowStore gs x"
    unfolding res(2) using old by simp
  have "rowStore gs2 ?n = row" using old by simp
  moreover have "map (rowStore gs2) bs1 = rows" using ih by blast
  ultimately have c4: "map (rowStore gs') bs = row # rows" unfolding res by simp
  show ?case using c1 c2 c3 c4 by blast
qed

lemma readCell_gridOf: "r < length g \<Longrightarrow> readCell gs g r c = gridOf gs g ! r ! c"
  by (simp add: readCell_def gridOf_def)

lemma gridOf_writeCell_other:
  "g ! r \<notin> set g' \<Longrightarrow> gridOf (writeCell gs g r c v) g' = gridOf gs g'"
  by (auto simp: gridOf_def writeCell_def)

lemma gridOf_writeCell_same:
  assumes "distinct g" "r < length g"
  shows "gridOf (writeCell gs g r c v) g = setCell (gridOf gs g) r c v"
proof (rule nth_equalityI)
  show "length (gridOf (writeCell gs g r c v) g) = length (setCell (gridOf gs g) r c v)"
    by (simp add: gridOf_def setCell_def)
next
  fix i
  assume "i < length (gridOf (writeCell gs g r c v) g)"
  then have i: "i < length g" by (simp add: gridOf_def)
  have "(g ! i = g ! r) = (i = r)"
    using assms i by (simp add: nth_eq_iff_index_eq)
  then show "gridOf (writeCell gs g r c v) g ! i = setCell (gridOf gs g) r c v ! i"
    using i assms(2) by (auto simp: gridOf_def writeCell_def setCell_def nth_list_update)
qed

lemma writeCell_fields:
  "writeCell gs g r c v = gs\<lparr>rowStore := rowStore (writeCell gs g r c v)\<rparr>"
  by (simp add: writeCell_def)

subsection \<open>Writing into the board\<close>

lemma boardOk_wf: "boardOk gs \<Longrightarrow> wf_grid (gridOf gs (board gs))"
  by (auto simp: boardOk_def wf_grid_def gridOf_def list_all_iff)

lemma readCell_board:
  "boardOk gs \<Longrightarrow> r < 9 \<Longrightarrow> readCell gs (board gs) r c = gridOf gs (board gs) ! r ! c"
  by (simp add: readCell_gridOf boardOk_def)

lemma writeCell_board:
  assumes ok: "boardOk gs" and r: "r < 9"
  shows "board (writeCell gs (board gs) r c v) = board gs"
    and "boardOk (writeCell gs (board gs) r c v)"
    and "gridOf (writeCell gs (board gs) r c v) (board gs) = setCell (gridOf gs (board gs)) r c v"
    and "a \<notin> set (board gs) \<Longrightarrow> rowStore (writeCell gs (board gs) r c v) a = rowStore gs a"
proof -
  show b: "board (writeCell gs (board gs) r c v) = board gs"
    by (simp add: writeCell_def)
  have mem: "board gs ! r \<in> set (board gs)"
    using ok r by (simp add: boardOk_def)
  show "boardOk (writeCell gs (board gs) r c v)"
    using ok by (auto simp: boardOk_def writeCell_def)
  show "gridOf (writeCell gs (board gs) r c v) (board gs) = setCell (gridOf gs (board gs)) r c v"
    using ok r by (intro gridOf_writeCell_same) (simp_all add: boardOk_def)
  show "a \<notin> set (board gs) \<Longrightarrow> rowStore (writeCell gs (board gs) r c v) a = rowStore gs a"
    using mem by (auto simp: writeCell_def)
qed

lemma zeroedFrom_refl: "boardOk gs \<Longrightarrow> zeroedFrom gs gs"
  by (simp add: zeroedFrom_def ball_allCells)

lemma zeroedFrom_board: "zeroedFrom gs gs' \<Longrightarrow> board gs' = board gs"
  unfolding zeroedFrom_def by (metis gameState.select_convs(4) gameState.surjective gameState.update_convs(1))

lemma zeroedFrom_trans:
  assumes "zeroedFrom gs gs1" "zeroedFrom gs1 gs2"
  shows "zeroedFrom gs gs2"
proof -
  have b1: "board gs1 = board gs" using assms(1) by (rule zeroedFrom_board)
  have b2: "board gs2 = board gs1" using assms(2) by (rule zeroedFrom_board)
  have f1: "gs1 = gs\<lparr>rowStore := rowStore gs1\<rparr>" using assms(1) by (simp add: zeroedFrom_def)
  have f2: "gs2 = gs1\<lparr>rowStore := rowStore gs2\<rparr>" using assms(2) by (simp add: zeroedFrom_def)
  have "gs2 = gs\<lparr>rowStore := rowStore gs2\<rparr>"
    by (subst f2, subst f1) simp
  moreover have "\<forall>a. a \<notin> set (board gs) \<longrightarrow> rowStore gs2 a = rowStore gs a"
    using assms b1 by (simp add: zeroedFrom_def)
  moreover have "\<forall>i<9. \<forall>j<9. readCell gs2 (board gs2) i j = 0
       \<or> readCell gs2 (board gs2) i j = readCell gs (board gs) i j"
    using assms unfolding zeroedFrom_def ball_allCells by metis
  ultimately show ?thesis
    using assms(2) unfolding zeroedFrom_def ball_allCells by blast
qed

lemma zeroedFrom_writeCell:
  assumes ok: "boardOk gs" and rc: "r < 9" "c < 9"
  shows "zeroedFrom gs (writeCell gs (board gs) r c 0)"
proof -
  let ?gs' = "writeCell gs (board gs) r c 0"
  note w = writeCell_board [OF ok rc(1), where c = c and v = 0]
  have "readCell ?gs' (board ?gs') i j = 0 \<or> readCell ?gs' (board ?gs') i j = readCell gs (board gs) i j"
    if ij: "i < 9" "j < 9" for i j
    using readCell_board [OF w(2) ij(1), of j] readCell_board [OF ok ij(1), of j] w(1,3)
      setCell_nth [OF boardOk_wf [OF ok] rc ij, of 0] by auto
  then show ?thesis
    unfolding zeroedFrom_def ball_allCells using w(2,4) writeCell_fields [of gs "board gs" r c 0]
    by blast
qed

lemma zeros_setCell_zero:
  assumes "wf_grid b" "r < 9" "c < 9" "b ! r ! c \<noteq> 0"
  shows "zeros (setCell b r c 0) = Suc (zeros b)"
proof -
  let ?Z = "{(i, j). i < 9 \<and> j < 9 \<and> b ! i ! j = 0}"
  have eq: "{(i, j). i < 9 \<and> j < 9 \<and> setCell b r c 0 ! i ! j = 0} = insert (r, c) ?Z"
    using assms by (auto simp: setCell_nth split: if_splits)
  have "(r, c) \<notin> ?Z"
    using assms by simp
  then have "card (insert (r, c) ?Z) = Suc (card ?Z)"
    by (rule card_insert_disjoint [OF finite_cells])
  then show ?thesis
    unfolding zeros_card eq .
qed

lemma zeros_le: "zeros b \<le> 81"
proof -
  have "zeros b \<le> length allCells" unfolding zeros_def by (rule length_filter_le)
  also have "length allCells = 81" by code_simp
  finally show ?thesis .
qed

lemma clues_zeros: "clues b + zeros b = 81"
proof -
  have "length (filter (\<lambda>(r, c). b ! r ! c = 0) allCells)
      + length (filter (\<lambda>x. \<not> (case x of (r, c) \<Rightarrow> b ! r ! c = 0)) allCells) = length allCells"
    by (rule sum_length_filter_compl)
  moreover have "(\<lambda>x. \<not> (case x of (r, c) \<Rightarrow> b ! r ! c = 0)) = (\<lambda>(r, c). b ! r ! c \<noteq> 0)"
    by auto
  moreover have "length allCells = 81" by code_simp
  ultimately show ?thesis unfolding clues_def zeros_def by simp
qed

subsection \<open>The removal loop, step by step and when it returns\<close>

lemma randomInt9: "fst (randomInt 9 s) < 9"
  by (simp add: randomInt_def)

lemma removeLoop_exit:
  "\<not> (case cc of None \<Rightarrow> False | Some n \<Rightarrow> removed < 81 - n) \<Longrightarrow>
     removeLoop gs removed cc s = Some (gs, s)"
  by (subst removeLoop.simps) simp

lemma removeLoop_hit:
  assumes "removed < 81 - n" "drawnCell s 0 = (r, c)" "readCell gs (board gs) r c \<noteq> 0"
  shows "removeLoop gs removed (Some n) s
       = removeLoop (writeCell gs (board gs) r c 0) (removed + 1) (Some n) (nextDraws (nextDraws s))"
  using assms by (subst removeLoop.simps) (simp add: drawnCell_def randomInt_def nextDraws_def Let_def)

lemma removeLoop_miss:
  assumes "removed < 81 - n" "drawnCell s 0 = (r, c)" "readCell gs (board gs) r c = 0"
  shows "removeLoop gs removed (Some n) s = removeLoop gs removed (Some n) (nextDraws (nextDraws s))"
  using assms by (subst removeLoop.simps) (simp add: drawnCell_def randomInt_def nextDraws_def Let_def)

lemma drawnCell_less: "drawnCell s m = (r, c) \<Longrightarrow> r < 9 \<and> c < 9"
  by (auto simp: drawnCell_def)

lemma drawnCell_next: "drawnCell (nextDraws (nextDraws s)) m = drawnCell s (Suc m)"
  by (simp add: drawnCell_def nextDraws_def)

lemma removeLoop_partial:
  assumes run: "removeLoop gs removed cc s = Some (gs', s')" and ok: "boardOk gs"
  shows "zeroedFrom gs gs'
     \<and> (\<forall>n. cc = Some n \<longrightarrow> removed \<le> 81 - n \<longrightarrow>
          int (zeros (gridOf gs' (board gs'))) = int (zeros (gridOf gs (board gs))) + (81 - n - removed))"
proof -
  let ?Q = "\<lambda>gs removed cc y. zeroedFrom gs (fst y)
     \<and> (\<forall>n. cc = Some n \<longrightarrow> removed \<le> 81 - n \<longrightarrow>
          int (zeros (gridOf (fst y) (board (fst y))))
          = int (zeros (gridOf gs (board gs))) + (81 - n - removed))"
  have "boardOk gs \<longrightarrow> ?Q gs removed cc (gs', s')"
  proof (rule removeLoop.raw_induct
      [where P = "\<lambda>gs removed cc s y. boardOk gs \<longrightarrow> ?Q gs removed cc y", OF _ run], goal_cases)
    case (1 f gs removed cc s y)
    show ?case
    proof
      assume ok: "boardOk gs"
      show "?Q gs removed cc y"
      proof (cases "case cc of None \<Rightarrow> False | Some n \<Rightarrow> removed < 81 - n")
        case False
        then have "y = (gs, s)" using 1(2) by simp
        moreover have "\<forall>n. cc = Some n \<longrightarrow> removed \<le> 81 - n \<longrightarrow> 81 - n - removed = 0"
          using False by auto
        ultimately show ?thesis
          using zeroedFrom_refl [OF ok] by simp
      next
        case True
        then obtain n where cc: "cc = Some n" and lt: "removed < 81 - n"
          by (cases cc) auto
        obtain r c where d: "drawnCell s 0 = (r, c)" by (cases "drawnCell s 0")
        have rc: "r < 9" "c < 9" using drawnCell_less [OF d] by simp_all
        have rd: "fst (randomInt 9 s) = r" "fst (randomInt 9 (snd (randomInt 9 s))) = c"
          using d by (simp_all add: drawnCell_def randomInt_def nextDraws_def)
        show ?thesis
        proof (cases "readCell gs (board gs) r c = 0")
          case True
          then have "f gs removed cc (snd (randomInt 9 (snd (randomInt 9 s)))) = Some y"
            using 1(2) cc lt rd by (simp add: Let_def)
          then show ?thesis using 1(1) ok by blast
        next
          case False
          let ?gs1 = "writeCell gs (board gs) r c 0"
          have "f ?gs1 (removed + 1) cc (snd (randomInt 9 (snd (randomInt 9 s)))) = Some y"
            using 1(2) cc lt rd False by (simp add: Let_def)
          moreover have ok1: "boardOk ?gs1"
            using writeCell_board(2) [OF ok rc(1)] .
          ultimately have ih: "?Q ?gs1 (removed + 1) cc y"
            using 1(1) by blast
          have z: "zeroedFrom gs (fst y)"
            using zeroedFrom_trans [OF zeroedFrom_writeCell [OF ok rc]] ih by blast
          have "gridOf gs (board gs) ! r ! c \<noteq> 0"
            using False readCell_board [OF ok rc(1)] by simp
          then have "zeros (gridOf ?gs1 (board ?gs1)) = Suc (zeros (gridOf gs (board gs)))"
            using zeros_setCell_zero [OF boardOk_wf [OF ok] rc]
              writeCell_board(1,3) [OF ok rc(1), where c = c and v = 0] by simp
          moreover have "int (zeros (gridOf (fst y) (board (fst y))))
              = int (zeros (gridOf ?gs1 (board ?gs1))) + (81 - n - (removed + 1))"
            using ih cc lt by simp
          ultimately have "int (zeros (gridOf (fst y) (board (fst y))))
              = int (zeros (gridOf gs (board gs))) + (81 - n - removed)"
            by simp
          then show ?thesis using z cc by simp
        qed
      qed
    qed
  qed
  then show ?thesis using ok by simp
qed

subsection \<open>When the removal loop returns, and when it does not\<close>

lemma drawnCells_0: "drawnCells s 0 = {}"
  by (simp add: drawnCells_def)

lemma drawnCells_Suc:
  "drawnCells s (Suc M) = insert (drawnCell s 0) (drawnCells (nextDraws (nextDraws s)) M)"
proof -
  have "drawnCells s (Suc M) = drawnCell s ` {0..<Suc M}"
    by (simp only: drawnCells_def set_map set_upt)
  also have "\<dots> = drawnCell s ` insert 0 (Suc ` {0..<M})"
    by (simp only: atLeast0_lessThan_Suc_eq_insert_0)
  also have "\<dots> = insert (drawnCell s 0) ((\<lambda>m. drawnCell s (Suc m)) ` {0..<M})"
    by (simp only: image_insert image_image)
  also have "(\<lambda>m. drawnCell s (Suc m)) = drawnCell (nextDraws (nextDraws s))"
    by (rule ext) (simp add: drawnCell_next)
  finally show ?thesis by (simp only: drawnCells_def set_map set_upt)
qed

lemma finite_drawnCells: "finite (drawnCells s M)"
  by (simp add: drawnCells_def)

lemma zeroCells_writeCell:
  assumes ok: "boardOk gs" and rc: "r < 9" "c < 9"
  shows "{(i, j). i < 9 \<and> j < 9
            \<and> readCell (writeCell gs (board gs) r c 0) (board (writeCell gs (board gs) r c 0)) i j = 0}
       = insert (r, c) {(i, j). i < 9 \<and> j < 9 \<and> readCell gs (board gs) i j = 0}"
proof -
  let ?gs1 = "writeCell gs (board gs) r c 0"
  note w = writeCell_board [OF ok rc(1), where c = c and v = 0]
  have "readCell ?gs1 (board ?gs1) i j = (if i = r \<and> j = c then 0 else readCell gs (board gs) i j)"
    if ij: "i < 9" "j < 9" for i j
    using readCell_board [OF w(2) ij(1), of j] readCell_board [OF ok ij(1), of j] w(1,3)
      setCell_nth [OF boardOk_wf [OF ok] rc ij, of 0] by simp
  then show ?thesis using rc by (auto split: if_splits)
qed

lemma removeLoop_returns:
  "boardOk gs \<Longrightarrow>
   81 - n - removed \<le> int (card (drawnCells s M
        - {(i, j). i < 9 \<and> j < 9 \<and> readCell gs (board gs) i j = 0})) \<Longrightarrow>
   \<exists>y. removeLoop gs removed (Some n) s = Some y"
proof (induction M arbitrary: gs removed s)
  case 0
  then have "\<not> removed < 81 - n" by (simp add: drawnCells_0)
  then show ?case
    using removeLoop_exit [where cc = "Some n" and removed = removed] by simp
next
  case (Suc M)
  let ?Z = "{(i, j). i < 9 \<and> j < 9 \<and> readCell gs (board gs) i j = 0}"
  let ?s' = "nextDraws (nextDraws s)"
  show ?case
  proof (cases "removed < 81 - n")
    case False
    then show ?thesis
      using removeLoop_exit [where cc = "Some n" and removed = removed] by simp
  next
    case lt: True
    obtain r c where d: "drawnCell s 0 = (r, c)" by (cases "drawnCell s 0")
    have rc: "r < 9" "c < 9" using drawnCell_less [OF d] by simp_all
    have D: "drawnCells s (Suc M) = insert (r, c) (drawnCells ?s' M)"
      using drawnCells_Suc [of s M] d by simp
    show ?thesis
    proof (cases "readCell gs (board gs) r c = 0")
      case True
      then have "(r, c) \<in> ?Z" using rc by simp
      then have "drawnCells s (Suc M) - ?Z = drawnCells ?s' M - ?Z"
        unfolding D by blast
      then have "81 - n - removed \<le> int (card (drawnCells ?s' M - ?Z))"
        using Suc.prems(2) by simp
      then show ?thesis
        using Suc.IH [OF Suc.prems(1)] removeLoop_miss [OF lt d True] by simp
    next
      case False
      let ?gs1 = "writeCell gs (board gs) r c 0"
      let ?Z1 = "{(i, j). i < 9 \<and> j < 9 \<and> readCell ?gs1 (board ?gs1) i j = 0}"
      have ok1: "boardOk ?gs1" using writeCell_board(2) [OF Suc.prems(1) rc(1)] .
      have Z1: "?Z1 = insert (r, c) ?Z"
        using zeroCells_writeCell [OF Suc.prems(1) rc] .
      have "drawnCells ?s' M - ?Z1 = (drawnCells s (Suc M) - ?Z) - {(r, c)}"
        unfolding D Z1 by blast
      moreover have "card ((drawnCells s (Suc M) - ?Z) - {(r, c)})
          \<ge> card (drawnCells s (Suc M) - ?Z) - 1"
        by (simp add: card_Diff_singleton_if)
      ultimately have "81 - n - (removed + 1) \<le> int (card (drawnCells ?s' M - ?Z1))"
        using Suc.prems(2) by simp
      then show ?thesis
        using Suc.IH [OF ok1] removeLoop_hit [OF lt d False] by simp
    qed
  qed
qed

lemma removeLoop_needs_draws:
  assumes run: "removeLoop gs removed (Some n) s = Some y" and ok: "boardOk gs"
  shows "\<exists>M. 81 - n - removed \<le> int (card (drawnCells s M
        - {(i, j). i < 9 \<and> j < 9 \<and> readCell gs (board gs) i j = 0}))"
proof -
  let ?Z = "\<lambda>gs. {(i, j). i < 9 \<and> j < 9 \<and> readCell gs (board gs) i j = 0}"
  let ?Q = "\<lambda>gs removed cc s. \<forall>n. cc = Some n \<longrightarrow>
      (\<exists>M. 81 - n - removed \<le> int (card (drawnCells s M - ?Z gs)))"
  have "boardOk gs \<longrightarrow> ?Q gs removed (Some n) s"
  proof (rule removeLoop.raw_induct
      [where P = "\<lambda>gs removed cc s y. boardOk gs \<longrightarrow> ?Q gs removed cc s", OF _ run], goal_cases)
    case (1 f gs removed cc s y)
    show ?case
    proof (intro impI allI)
      fix n
      assume ok: "boardOk gs" and cc: "cc = Some n"
      let ?s' = "nextDraws (nextDraws s)"
      show "\<exists>M. 81 - n - removed \<le> int (card (drawnCells s M - ?Z gs))"
      proof (cases "removed < 81 - n")
        case False
        then have "81 - n - removed \<le> int (card (drawnCells s 0 - ?Z gs))" by simp
        then show ?thesis by blast
      next
        case lt: True
        obtain r c where d: "drawnCell s 0 = (r, c)" by (cases "drawnCell s 0")
        have rc: "r < 9" "c < 9" using drawnCell_less [OF d] by simp_all
        have rd: "fst (randomInt 9 s) = r" "fst (randomInt 9 (snd (randomInt 9 s))) = c"
          "snd (randomInt 9 (snd (randomInt 9 s))) = ?s'"
          using d by (simp_all add: drawnCell_def randomInt_def nextDraws_def)
        have D: "drawnCells s (Suc M) = insert (r, c) (drawnCells ?s' M)" for M
          using drawnCells_Suc [of s M] d by simp
        show ?thesis
        proof (cases "readCell gs (board gs) r c = 0")
          case True
          then have "f gs removed cc ?s' = Some y"
            using 1(2) cc lt rd by (simp add: Let_def)
          then obtain M where M: "81 - n - removed \<le> int (card (drawnCells ?s' M - ?Z gs))"
            using 1(1) ok cc by blast
          have "card (drawnCells ?s' M - ?Z gs) \<le> card (drawnCells s (Suc M) - ?Z gs)"
            unfolding D by (intro card_mono) (auto simp: finite_drawnCells)
          then show ?thesis using M by (intro exI [of _ "Suc M"]) linarith
        next
          case False
          let ?gs1 = "writeCell gs (board gs) r c 0"
          have "f ?gs1 (removed + 1) cc ?s' = Some y"
            using 1(2) cc lt rd False by (simp add: Let_def)
          moreover have ok1: "boardOk ?gs1"
            using writeCell_board(2) [OF ok rc(1)] .
          ultimately obtain M where
            M: "81 - n - (removed + 1) \<le> int (card (drawnCells ?s' M - ?Z ?gs1))"
            using 1(1) cc by blast
          have Z1: "?Z ?gs1 = insert (r, c) (?Z gs)"
            using zeroCells_writeCell [OF ok rc] .
          have notin: "(r, c) \<notin> drawnCells ?s' M - ?Z ?gs1" unfolding Z1 by simp
          have fin: "finite (drawnCells ?s' M - ?Z ?gs1)" by (simp add: finite_drawnCells)
          have "(r, c) \<notin> ?Z gs" using False by simp
          then have "insert (r, c) (drawnCells ?s' M - ?Z ?gs1) \<subseteq> drawnCells s (Suc M) - ?Z gs"
            unfolding D Z1 by blast
          then have "card (insert (r, c) (drawnCells ?s' M - ?Z ?gs1))
              \<le> card (drawnCells s (Suc M) - ?Z gs)"
            by (intro card_mono) (simp_all add: finite_drawnCells)
          then have "Suc (card (drawnCells ?s' M - ?Z ?gs1)) \<le> card (drawnCells s (Suc M) - ?Z gs)"
            using card_insert_disjoint [OF fin notin] by simp
          then show ?thesis using M by (intro exI [of _ "Suc M"]) linarith
        qed
      qed
    qed
  qed
  then show ?thesis using ok by simp
qed


subsection \<open>The two copies around the loop\<close>

lemma removeLoop_negative:
  assumes run: "removeLoop gs removed (Some n) s = Some y"
  shows "\<not> (n < 0 \<and> boardOk gs \<and> removed \<le> int (zeros (gridOf gs (board gs))))"
proof -
  let ?bad = "\<lambda>gs removed cc. \<exists>n. cc = Some n \<and> n < (0::int) \<and> boardOk gs
      \<and> removed \<le> int (zeros (gridOf gs (board gs)))"
  have "\<not> ?bad gs removed (Some n)"
  proof (rule removeLoop.raw_induct
      [where P = "\<lambda>gs removed cc s y. \<not> ?bad gs removed cc", OF _ run], goal_cases)
    case (1 f gs removed cc s y)
    show ?case
    proof
      assume "?bad gs removed cc"
      then obtain n where a: "cc = Some n" "n < 0" "boardOk gs"
          "removed \<le> int (zeros (gridOf gs (board gs)))" by blast
      have lt: "removed < 81 - n"
        using a(2,4) zeros_le [of "gridOf gs (board gs)"] by linarith
      obtain r c where d: "drawnCell s 0 = (r, c)" by (cases "drawnCell s 0")
      have rc: "r < 9" "c < 9" using drawnCell_less [OF d] by simp_all
      have rd: "fst (randomInt 9 s) = r" "fst (randomInt 9 (snd (randomInt 9 s))) = c"
        using d by (simp_all add: drawnCell_def randomInt_def nextDraws_def)
      show False
      proof (cases "readCell gs (board gs) r c = 0")
        case True
        then have "f gs removed cc (snd (randomInt 9 (snd (randomInt 9 s)))) = Some y"
          using 1(2) a(1) lt rd by (simp add: Let_def)
        then show False using 1(1) a by blast
      next
        case False
        let ?gs1 = "writeCell gs (board gs) r c 0"
        have run1: "f ?gs1 (removed + 1) cc (snd (randomInt 9 (snd (randomInt 9 s)))) = Some y"
          using 1(2) a(1) lt rd False by (simp add: Let_def)
        have ok1: "boardOk ?gs1"
          using writeCell_board(2) [OF a(3) rc(1)] .
        have "gridOf gs (board gs) ! r ! c \<noteq> 0"
          using False readCell_board [OF a(3) rc(1)] by simp
        then have "zeros (gridOf ?gs1 (board ?gs1)) = Suc (zeros (gridOf gs (board gs)))"
          using zeros_setCell_zero [OF boardOk_wf [OF a(3)] rc]
            writeCell_board(1,3) [OF a(3) rc(1), where c = c and v = 0] by simp
        then have "removed + 1 \<le> int (zeros (gridOf ?gs1 (board ?gs1)))"
          using a(4) by simp
        then show False using 1(1) [OF run1] a(1,2) ok1 by blast
      qed
    qed
  qed
  then show ?thesis by simp
qed

lemma store_update_fields:
  "g2 = g1\<lparr>rowStore := st, nextAddr := n\<rparr> \<Longrightarrow>
     board g2 = board g1 \<and> solution g2 = solution g1 \<and> originalBoard g2 = originalBoard g1
     \<and> selectedCell g2 = selectedCell g1 \<and> nextAddr g2 = n \<and> rowStore g2 = st"
  by simp

lemma rows_length_map:
  "map f xs = map g ys \<Longrightarrow> \<forall>a \<in> set ys. length (g a) = (9::nat) \<Longrightarrow> \<forall>a \<in> set xs. length (f a) = 9"
proof -
  assume eq: "map f xs = map g ys" and len: "\<forall>a \<in> set ys. length (g a) = 9"
  have "\<forall>row \<in> set (map g ys). length row = 9" using len by simp
  then have "\<forall>row \<in> set (map f xs). length row = 9" using eq by simp
  then show ?thesis by simp
qed

lemma copySolutionToBoard_spec:
  assumes st: "solutionStored gs"
  shows "boardOk (copySolutionToBoard gs)"
    and "gridOf (copySolutionToBoard gs) (board (copySolutionToBoard gs)) = gridOf gs (solution gs)"
    and "board (copySolutionToBoard gs) = [nextAddr gs ..< nextAddr gs + 9]"
    and "solution (copySolutionToBoard gs) = solution gs"
    and "selectedCell (copySolutionToBoard gs) = selectedCell gs"
    and "nextAddr (copySolutionToBoard gs) = nextAddr gs + 9"
    and "\<forall>a < nextAddr gs. rowStore (copySolutionToBoard gs) a = rowStore gs a"
proof -
  let ?n = "nextAddr gs"
  have sol: "length (solution gs) = 9" "distinct (solution gs)"
      "\<forall>a \<in> set (solution gs). a < ?n" "\<forall>a \<in> set (solution gs). length (rowStore gs a) = 9"
    using st by (simp_all add: solutionStored_def)
  obtain b gs1 where c1: "copyRows (solution gs) gs = (b, gs1)"
    by (cases "copyRows (solution gs) gs")
  note s1 = copyRows_spec [OF c1, unfolded sol(1)]
  have b: "b = [?n ..< ?n + 9]" using s1 by blast
  have f1: "board gs1 = board gs \<and> solution gs1 = solution gs
      \<and> originalBoard gs1 = originalBoard gs \<and> selectedCell gs1 = selectedCell gs
      \<and> nextAddr gs1 = ?n + 9 \<and> rowStore gs1 = rowStore gs1"
    using store_update_fields [where ?g2.0 = gs1 and ?g1.0 = gs and st = "rowStore gs1"
        and n = "?n + 9"] s1 by metis
  have old1: "\<forall>a < ?n. rowStore gs1 a = rowStore gs a" using s1 by blast
  have m1: "map (rowStore gs1) b = map (rowStore gs) (solution gs)" using s1 sol(3) by blast
  have eq: "copySolutionToBoard gs = gs1\<lparr>board := b\<rparr>"
    unfolding copySolutionToBoard_def c1 by simp
  have len2: "\<forall>a \<in> set b. length (rowStore gs1 a) = 9"
    using rows_length_map [OF m1 sol(4)] .
  show "boardOk (copySolutionToBoard gs)"
    unfolding eq using len2 b by (simp add: boardOk_def)
  show "gridOf (copySolutionToBoard gs) (board (copySolutionToBoard gs)) = gridOf gs (solution gs)"
    unfolding eq using m1 by (simp add: gridOf_def)
  show "board (copySolutionToBoard gs) = [?n ..< ?n + 9]"
    unfolding eq using b by simp
  show "solution (copySolutionToBoard gs) = solution gs"
    unfolding eq using f1 by simp
  show "selectedCell (copySolutionToBoard gs) = selectedCell gs"
    unfolding eq using f1 by simp
  show "nextAddr (copySolutionToBoard gs) = ?n + 9"
    unfolding eq using f1 by simp
  show "\<forall>a < ?n. rowStore (copySolutionToBoard gs) a = rowStore gs a"
    unfolding eq using old1 by simp
qed

lemma saveOriginalBoard_spec:
  assumes ok: "boardOk gs" and lt: "\<forall>a \<in> set (board gs). a < nextAddr gs"
  shows "board (saveOriginalBoard gs) = board gs"
    and "solution (saveOriginalBoard gs) = solution gs"
    and "selectedCell (saveOriginalBoard gs) = selectedCell gs"
    and "originalBoard (saveOriginalBoard gs) = [nextAddr gs ..< nextAddr gs + 9]"
    and "nextAddr (saveOriginalBoard gs) = nextAddr gs + 9"
    and "\<forall>a < nextAddr gs. rowStore (saveOriginalBoard gs) a = rowStore gs a"
    and "gridOf (saveOriginalBoard gs) (originalBoard (saveOriginalBoard gs)) = gridOf gs (board gs)"
proof -
  let ?n = "nextAddr gs"
  have lb: "length (board gs) = 9" using ok by (simp add: boardOk_def)
  obtain ob gs1 where c1: "copyRows (board gs) gs = (ob, gs1)"
    by (cases "copyRows (board gs) gs")
  note s1 = copyRows_spec [OF c1, unfolded lb]
  have ob: "ob = [?n ..< ?n + 9]" using s1 by blast
  have f1: "board gs1 = board gs \<and> solution gs1 = solution gs
      \<and> originalBoard gs1 = originalBoard gs \<and> selectedCell gs1 = selectedCell gs
      \<and> nextAddr gs1 = ?n + 9 \<and> rowStore gs1 = rowStore gs1"
    using store_update_fields [where ?g2.0 = gs1 and ?g1.0 = gs and st = "rowStore gs1"
        and n = "?n + 9"] s1 by metis
  have old1: "\<forall>a < ?n. rowStore gs1 a = rowStore gs a" using s1 by blast
  have m1: "map (rowStore gs1) ob = map (rowStore gs) (board gs)" using s1 lt by blast
  have eq: "saveOriginalBoard gs = gs1\<lparr>originalBoard := ob\<rparr>"
    unfolding saveOriginalBoard_def c1 by simp
  show "board (saveOriginalBoard gs) = board gs" unfolding eq using f1 by simp
  show "solution (saveOriginalBoard gs) = solution gs" unfolding eq using f1 by simp
  show "selectedCell (saveOriginalBoard gs) = selectedCell gs" unfolding eq using f1 by simp
  show "originalBoard (saveOriginalBoard gs) = [?n ..< ?n + 9]" unfolding eq using ob by simp
  show "nextAddr (saveOriginalBoard gs) = ?n + 9" unfolding eq using f1 by simp
  show "\<forall>a < ?n. rowStore (saveOriginalBoard gs) a = rowStore gs a"
    unfolding eq using old1 by simp
  show "gridOf (saveOriginalBoard gs) (originalBoard (saveOriginalBoard gs)) = gridOf gs (board gs)"
    unfolding eq using m1 by (simp add: gridOf_def)
qed

lemma zeroedFrom_fields:
  assumes "zeroedFrom gs gs'"
  shows "board gs' = board gs" "solution gs' = solution gs" "selectedCell gs' = selectedCell gs"
    "nextAddr gs' = nextAddr gs" "originalBoard gs' = originalBoard gs"
proof -
  have e: "gs' = gs\<lparr>rowStore := rowStore gs'\<rparr>" using assms by (simp add: zeroedFrom_def)
  show "board gs' = board gs" by (subst e) simp
  show "solution gs' = solution gs" by (subst e) simp
  show "selectedCell gs' = selectedCell gs" by (subst e) simp
  show "nextAddr gs' = nextAddr gs" by (subst e) simp
  show "originalBoard gs' = originalBoard gs" by (subst e) simp
qed

lemma derived_state:
  assumes st: "solutionStored gs" and z: "zeroedFrom (copySolutionToBoard gs) gs1"
  shows "solution (saveOriginalBoard gs1) = solution gs"
    and "gridOf (saveOriginalBoard gs1) (solution gs) = gridOf gs (solution gs)"
    and "gridOf (saveOriginalBoard gs1) (board (saveOriginalBoard gs1)) = gridOf gs1 (board gs1)"
    and "gridOf (saveOriginalBoard gs1) (originalBoard (saveOriginalBoard gs1)) = gridOf gs1 (board gs1)"
    and "selectedOnGrid gs \<Longrightarrow> sessionOk (saveOriginalBoard gs1)"
proof -
  let ?n = "nextAddr gs"
  let ?gs0 = "copySolutionToBoard gs"
  let ?gs' = "saveOriginalBoard gs1"
  have sol: "length (solution gs) = 9" "distinct (solution gs)"
      "\<forall>a \<in> set (solution gs). a < ?n" "\<forall>a \<in> set (solution gs). length (rowStore gs a) = 9"
    using st by (simp_all add: solutionStored_def)
  note c = copySolutionToBoard_spec [OF st]
  note f = zeroedFrom_fields [OF z]
  have ok1: "boardOk gs1" using z by (simp add: zeroedFrom_def)
  have b1: "board gs1 = [?n ..< ?n + 9]" using f(1) c(3) by simp
  have n1: "nextAddr gs1 = ?n + 9" using f(4) c(6) by simp
  have old1: "\<forall>a. a \<notin> set (board ?gs0) \<longrightarrow> rowStore gs1 a = rowStore ?gs0 a"
    using z by (simp add: zeroedFrom_def)
  have lt1: "\<forall>a \<in> set (board gs1). a < nextAddr gs1" unfolding b1 n1 by simp
  note sv = saveOriginalBoard_spec [OF ok1 lt1]
  have keep: "rowStore ?gs' a = rowStore gs a" if "a < ?n" for a
  proof -
    have "rowStore ?gs' a = rowStore gs1 a" using sv(6) n1 that by simp
    also have "\<dots> = rowStore ?gs0 a" using old1 c(3) that by simp
    also have "\<dots> = rowStore gs a" using c(7) that by simp
    finally show ?thesis .
  qed
  show p1: "solution ?gs' = solution gs" using sv(2) f(2) c(4) by simp
  show "gridOf ?gs' (solution gs) = gridOf gs (solution gs)"
    unfolding gridOf_def using keep sol(3) by (intro map_cong) auto
  have "map (rowStore ?gs') (board gs1) = map (rowStore gs1) (board gs1)"
    using sv(6) lt1 by (intro map_cong) auto
  then show "gridOf ?gs' (board ?gs') = gridOf gs1 (board gs1)"
    unfolding sv(1) by (simp add: gridOf_def)
  show p4: "gridOf ?gs' (originalBoard ?gs') = gridOf gs1 (board gs1)" using sv(7) .
  have len1: "\<forall>a \<in> set (board gs1). length (rowStore gs1 a) = 9"
    using ok1 by (simp add: boardOk_def)
  show "sessionOk ?gs'" if sel: "selectedOnGrid gs"
  proof -
    have ob: "originalBoard ?gs' = [?n + 9 ..< ?n + 9 + 9]"
      unfolding sv(4) n1 by (rule refl)
    have "distinct (board gs1 @ solution gs @ originalBoard ?gs')"
      unfolding ob b1 using sol(2,3) by auto
    moreover have "\<forall>a \<in> set (board gs1). a < ?n + 9 + 9 \<and> length (rowStore ?gs' a) = 9"
      using len1 sv(6) lt1 n1 by auto
    moreover have "\<forall>a \<in> set (solution gs). a < ?n + 9 + 9 \<and> length (rowStore ?gs' a) = 9"
      using keep sol(3,4) by auto
    moreover have "\<forall>a \<in> set (originalBoard ?gs'). length (rowStore ?gs' a) = 9"
      using rows_length_map [of "rowStore ?gs'" "originalBoard ?gs'" "rowStore gs1" "board gs1"]
        p4 len1 by (simp add: gridOf_def)
    moreover have "\<forall>a \<in> set (originalBoard ?gs'). a < ?n + 9 + 9"
      unfolding ob by simp
    moreover have "selectedOnGrid ?gs'"
      using sel sv(3) f(3) c(5) by (simp add: selectedOnGrid_def)
    moreover have "nextAddr ?gs' = ?n + 9 + 9" unfolding sv(5) n1 by (rule refl)
    ultimately show ?thesis
      unfolding sessionOk_def sv(1) p1 using sol(1) b1 ob by auto
  qed
qed

subsection \<open>The sample state and the sample sources\<close>

lemma sampleState_facts:
  "solutionStored sampleState" "gridOf sampleState (solution sampleState) = sampleSolution"
  "selectedCell sampleState = None"
proof -
  obtain a gs where st: "storeRows sampleSolution blankState = (a, gs)"
    by (cases "storeRows sampleSolution blankState")
  have len: "length sampleSolution = 9" "\<forall>row \<in> set sampleSolution. length row = 9"
    by (simp_all add: sampleSolution_def)
  note sp = storeRows_spec [OF st, unfolded len(1)]
  have n0: "nextAddr blankState = 0" by (simp add: blankState_def)
  have a: "a = [0 ..< 9]" using sp n0 by simp
  have f: "board gs = board blankState \<and> solution gs = solution blankState
      \<and> originalBoard gs = originalBoard blankState \<and> selectedCell gs = selectedCell blankState
      \<and> nextAddr gs = 9 \<and> rowStore gs = rowStore gs"
    using store_update_fields [where ?g2.0 = gs and ?g1.0 = blankState and st = "rowStore gs"
        and n = 9] sp n0 by simp
  have m: "map (rowStore gs) a = sampleSolution" using sp by blast
  have ss: "sampleState = gs\<lparr>solution := a\<rparr>"
    unfolding sampleState_def st by simp
  have "\<forall>row \<in> set (map (rowStore gs) a). length row = 9" unfolding m using len(2) .
  then have rows: "\<forall>x \<in> set a. length (rowStore gs x) = 9" by simp
  show "solutionStored sampleState"
    unfolding ss solutionStored_def using a f rows by simp
  show "gridOf sampleState (solution sampleState) = sampleSolution"
    unfolding ss using m by (simp add: gridOf_def)
  show "selectedCell sampleState = None"
    unfolding ss using f by (simp add: blankState_def)
qed

lemma full_sampleSolution: "full sampleSolution"
  by code_simp

lemma full_zeros: "full b \<Longrightarrow> zeros b = 0"
  unfolding full_def zeros_def by (auto simp: filter_empty_conv)

lemma sweep_nth: "sweep n = (if even n then n div 18 else n div 2)"
  by (simp add: sweep_def)

lemma length_gridOf: "length (gridOf gs g) = length g"
  by (simp add: gridOf_def)

section \<open>The derivation: claims C3, C4 and C5\<close>

lemma full_no_zero_cell:
  assumes "boardOk gs" "full (gridOf gs (board gs))"
  shows "{(i, j). i < 9 \<and> j < 9 \<and> readCell gs (board gs) i j = 0} = {}"
  using readCell_board [OF assms(1)] fullD [OF assms(2)] by auto

lemma derivePuzzle_returns_iff:
  assumes st: "solutionStored gs" and fu: "full (gridOf gs (solution gs))"
  shows "(\<exists>gs' s'. derivePuzzle gs (Some n) s = Some (gs', s'))
       = (\<exists>M. 81 - n \<le> int (differentCells s M))"
proof -
  let ?gs0 = "copySolutionToBoard gs"
  note c = copySolutionToBoard_spec [OF st]
  have Z: "{(i, j). i < 9 \<and> j < 9 \<and> readCell ?gs0 (board ?gs0) i j = 0} = {}"
    using full_no_zero_cell [OF c(1)] fu c(2) by simp
  have "(\<exists>gs' s'. derivePuzzle gs (Some n) s = Some (gs', s'))
      = (\<exists>y. removeLoop ?gs0 0 (Some n) s = Some y)"
    unfolding derivePuzzle_def by (cases "removeLoop ?gs0 0 (Some n) s") auto
  also have "\<dots> = (\<exists>M. 81 - n \<le> int (differentCells s M))"
  proof
    assume "\<exists>y. removeLoop ?gs0 0 (Some n) s = Some y"
    then obtain y where "removeLoop ?gs0 0 (Some n) s = Some y" by blast
    then show "\<exists>M. 81 - n \<le> int (differentCells s M)"
      using removeLoop_needs_draws [OF _ c(1), of 0 n s y] unfolding Z differentCells_def by simp
  next
    assume "\<exists>M. 81 - n \<le> int (differentCells s M)"
    then obtain M where "81 - n - 0 \<le> int (card (drawnCells s M - {}))"
      unfolding differentCells_def by auto
    then show "\<exists>y. removeLoop ?gs0 0 (Some n) s = Some y"
      using removeLoop_returns [OF c(1), of n 0 s M] unfolding Z by simp
  qed
  finally show ?thesis .
qed

lemma derivePuzzle_returns:
  assumes "solutionStored gs" "full (gridOf gs (solution gs))" "81 - n \<le> int (differentCells s M)"
  shows "\<exists>gs' s'. derivePuzzle gs (Some n) s = Some (gs', s')"
  using derivePuzzle_returns_iff [OF assms(1,2), of n s] assms(3) by blast

lemma sweep_51: "differentCells sweep 51 = 51"
  by code_simp

lemma stutter_5: "differentCells stutter 5 = 3"
  by code_simp

lemma stutter_redraw: "drawnCell stutter 0 = (0, 0)" "drawnCell stutter 1 = (0, 0)"
  by code_simp+

lemma stutter_puzzle:
  "puzzleOf (derivePuzzle sampleState (Some 78) stutter)
   = Some (setCell (setCell (setCell sampleSolution 0 0 0) 0 1 0) 0 2 0)"
  by code_simp

lemma derivePuzzle_result:
  assumes st: "solutionStored gs" and d: "derivePuzzle gs cc s = Some (gs', s')"
  shows "wf_grid (gridOf gs' (board gs'))"
    and "gridOf gs' (solution gs') = gridOf gs (solution gs)"
    and "gridOf gs' (originalBoard gs') = gridOf gs' (board gs')"
    and "\<forall>i<9. \<forall>j<9. gridOf gs' (board gs') ! i ! j = 0
           \<or> gridOf gs' (board gs') ! i ! j = gridOf gs (solution gs) ! i ! j"
    and "\<forall>n. cc = Some n \<longrightarrow> n \<le> 81 \<longrightarrow>
           int (zeros (gridOf gs' (board gs'))) = int (zeros (gridOf gs (solution gs))) + (81 - n)"
    and "selectedOnGrid gs \<Longrightarrow> sessionOk gs'"
proof -
  let ?gs0 = "copySolutionToBoard gs"
  note c = copySolutionToBoard_spec [OF st]
  obtain gs1 where run: "removeLoop ?gs0 0 cc s = Some (gs1, s')" and g: "gs' = saveOriginalBoard gs1"
    using d unfolding derivePuzzle_def by (auto split: option.splits)
  note part = removeLoop_partial [OF run c(1)]
  have z: "zeroedFrom ?gs0 gs1" using part by simp
  have ok1: "boardOk gs1" using z by (simp add: zeroedFrom_def)
  note p = derived_state [OF st z]
  show "wf_grid (gridOf gs' (board gs'))"
    unfolding g p(3) using boardOk_wf [OF ok1] .
  show "gridOf gs' (solution gs') = gridOf gs (solution gs)"
    unfolding g using p(1,2) by simp
  show "gridOf gs' (originalBoard gs') = gridOf gs' (board gs')"
    unfolding g using p(3,4) by simp
  have "gridOf gs1 (board gs1) ! i ! j = 0
        \<or> gridOf gs1 (board gs1) ! i ! j = gridOf ?gs0 (board ?gs0) ! i ! j"
    if ij: "i < 9" "j < 9" for i j
    using z ij readCell_board [OF ok1 ij(1), of j] readCell_board [OF c(1) ij(1), of j]
    unfolding zeroedFrom_def ball_allCells by metis
  then show "\<forall>i<9. \<forall>j<9. gridOf gs' (board gs') ! i ! j = 0
           \<or> gridOf gs' (board gs') ! i ! j = gridOf gs (solution gs) ! i ! j"
    unfolding g p(3) c(2) by blast
  show "\<forall>n. cc = Some n \<longrightarrow> n \<le> 81 \<longrightarrow>
           int (zeros (gridOf gs' (board gs'))) = int (zeros (gridOf gs (solution gs))) + (81 - n)"
    unfolding g p(3) using part c(2) by simp
  show "selectedOnGrid gs \<Longrightarrow> sessionOk gs'"
    unfolding g using p(5) by simp
qed

lemma derivePuzzle_board_length:
  assumes "solutionStored gs" "derivePuzzle gs cc s = Some (gs', s')"
  shows "length (board gs') = 9" "length (solution gs') = 9"
proof -
  have "length (gridOf gs' (board gs')) = 9"
    using derivePuzzle_result(1) [OF assms] by (simp add: wf_grid_def)
  then show "length (board gs') = 9" by (simp add: gridOf_def)
  have "length (gridOf gs' (solution gs')) = length (gridOf gs (solution gs))"
    using derivePuzzle_result(2) [OF assms] by simp
  then show "length (solution gs') = 9"
    using assms(1) by (simp add: gridOf_def solutionStored_def)
qed

text \<open>
  C3.  For every stored complete solution and every clue count \<open>n\<close> in 0..81, every
  puzzle that the derivation returns has exactly \<open>n\<close> non-zero cells and \<open>81 - n\<close>
  zeroed cells; and the derivation returns exactly when the random source draws at least
  \<open>81 - n\<close> different cells, as every source does that is not confined to fewer cells
  for ever.  Drawing a cell again costs an iteration and nothing else.
\<close>

theorem derivePuzzle_clue_count:
  assumes "solutionStored gs" "full (gridOf gs (solution gs))" "0 \<le> n" "n \<le> 81"
  shows "((\<exists>gs' s'. derivePuzzle gs (Some n) s = Some (gs', s'))
          = (\<exists>M. 81 - n \<le> int (differentCells s M)))
       \<and> (\<forall>gs' s'. derivePuzzle gs (Some n) s = Some (gs', s') \<longrightarrow>
            int (clues (gridOf gs' (board gs'))) = n
            \<and> int (zeros (gridOf gs' (board gs'))) = 81 - n)"
proof -
  have "int (clues (gridOf gs' (board gs'))) = n \<and> int (zeros (gridOf gs' (board gs'))) = 81 - n"
    if d: "derivePuzzle gs (Some n) s = Some (gs', s')" for gs' s'
  proof -
    have "int (zeros (gridOf gs' (board gs'))) = int (zeros (gridOf gs (solution gs))) + (81 - n)"
      using derivePuzzle_result(5) [OF assms(1) d] assms(4) by simp
    then have z: "int (zeros (gridOf gs' (board gs'))) = 81 - n"
      using full_zeros [OF assms(2)] by simp
    then have "int (clues (gridOf gs' (board gs'))) = n"
      using clues_zeros [of "gridOf gs' (board gs')"] by linarith
    with z show ?thesis by simp
  qed
  then show ?thesis
    using derivePuzzle_returns_iff [OF assms(1,2), of n s] by blast
qed

text \<open>
  With the source \<open>stutter\<close> and 78 clues the loop draws (0,0), draws it twice more in
  vain, then draws (0,1) and (0,2): three different cells in five iterations, and the puzzle
  is the solution without these three cells.
\<close>

theorem derivePuzzle_clue_count_witness:
  "solutionStored sampleState \<and> full (gridOf sampleState (solution sampleState))
   \<and> drawnCell stutter 0 = (0, 0) \<and> drawnCell stutter 1 = (0, 0)
   \<and> differentCells stutter 5 = 3
   \<and> puzzleOf (derivePuzzle sampleState (Some 78) stutter)
       = Some (setCell (setCell (setCell sampleSolution 0 0 0) 0 1 0) 0 2 0)
   \<and> (\<exists>gs' s'. derivePuzzle sampleState (Some 78) stutter = Some (gs', s')
        \<and> clues (gridOf gs' (board gs')) = 78 \<and> zeros (gridOf gs' (board gs')) = 3)"
proof -
  have fu: "full (gridOf sampleState (solution sampleState))"
    using sampleState_facts(2) full_sampleSolution by simp
  note t = derivePuzzle_clue_count [OF sampleState_facts(1) fu, of 78 stutter]
  have "\<exists>M. 81 - 78 \<le> int (differentCells stutter M)"
    using stutter_5 by (intro exI [of _ 5]) simp
  then obtain gs' s' where d: "derivePuzzle sampleState (Some 78) stutter = Some (gs', s')"
    using t by auto
  then have "clues (gridOf gs' (board gs')) = 78 \<and> zeros (gridOf gs' (board gs')) = 3"
    using t by auto
  then show ?thesis
    using d fu sampleState_facts(1) stutter_redraw stutter_5 stutter_puzzle by blast
qed

text \<open>
  C4.  In every puzzle that the derivation returns, each cell is 0 or holds the solution's
  value at that position; the solution itself is unchanged; and when the solution is
  complete, the zeroed cells are exactly the cells where puzzle and solution differ.
\<close>

theorem derivePuzzle_subset:
  assumes "solutionStored gs" "derivePuzzle gs cc s = Some (gs', s')"
  shows "(\<forall>(r, c) \<in> set allCells.
            readCell gs' (board gs') r c = 0
            \<or> readCell gs' (board gs') r c = readCell gs' (solution gs') r c)
       \<and> gridOf gs' (solution gs') = gridOf gs (solution gs)
       \<and> (full (gridOf gs (solution gs)) \<longrightarrow>
            (\<forall>(r, c) \<in> set allCells.
               (readCell gs' (board gs') r c = 0)
               = (readCell gs' (board gs') r c \<noteq> readCell gs' (solution gs') r c)))"
proof -
  note r = derivePuzzle_result [OF assms]
  note len = derivePuzzle_board_length [OF assms]
  have rb: "readCell gs' (board gs') i j = gridOf gs' (board gs') ! i ! j" if "i < 9" for i j
    using that len(1) by (simp add: readCell_gridOf)
  have rs: "readCell gs' (solution gs') i j = gridOf gs (solution gs) ! i ! j" if "i < 9" for i j
    using that len(2) r(2) by (simp add: readCell_gridOf)
  have sub: "readCell gs' (board gs') i j = 0
        \<or> readCell gs' (board gs') i j = readCell gs' (solution gs') i j"
    if "i < 9" "j < 9" for i j
    using r(4) that by (simp add: rb rs)
  have "(readCell gs' (board gs') i j = 0)
        = (readCell gs' (board gs') i j \<noteq> readCell gs' (solution gs') i j)"
    if "i < 9" "j < 9" "full (gridOf gs (solution gs))" for i j
    using sub [OF that(1,2)] fullD [OF that(3,1,2)] rs [OF that(1), of j] by auto
  then show ?thesis
    unfolding ball_allCells using sub r(2) by blast
qed

theorem derivePuzzle_subset_witness:
  "\<exists>gs' s'. derivePuzzle sampleState (Some 30) sweep = Some (gs', s')
     \<and> (\<forall>(r, c) \<in> set allCells.
            readCell gs' (board gs') r c = 0
            \<or> readCell gs' (board gs') r c = readCell gs' (solution gs') r c)
     \<and> gridOf gs' (solution gs') = sampleSolution"
proof -
  have "full (gridOf sampleState (solution sampleState))"
    using sampleState_facts(2) full_sampleSolution by simp
  then obtain gs' s' where d: "derivePuzzle sampleState (Some 30) sweep = Some (gs', s')"
    using derivePuzzle_returns [OF sampleState_facts(1), of 30 sweep 51] sweep_51 by auto
  show ?thesis
    using derivePuzzle_subset [OF sampleState_facts(1) d] d sampleState_facts(2) by auto
qed

text \<open>
  C5 (as amended).  The derivation has no clue-count check and no error result.  A clue
  count above 81 never enters the removal loop: the derivation returns at once, without a
  draw, and the puzzle is the complete solution.  A clue count below 0 enters the loop and
  never returns.  Every clue count of the difficulty table is in 0..81.
\<close>

theorem derivePuzzle_no_clue_check:
  assumes "solutionStored gs"
  shows "(81 < n \<longrightarrow> (\<exists>gs'. derivePuzzle gs (Some n) s = Some (gs', s)
                        \<and> gridOf gs' (board gs') = gridOf gs (solution gs)))
       \<and> (n < 0 \<longrightarrow> derivePuzzle gs (Some n) s = None)
       \<and> (\<forall>name k. difficulties name = Some k \<longrightarrow> 0 \<le> k \<and> k \<le> 81)"
proof (intro conjI impI allI)
  let ?gs0 = "copySolutionToBoard gs"
  note c = copySolutionToBoard_spec [OF assms]
  {
    assume "81 < n"
    then have run: "removeLoop ?gs0 0 (Some n) s = Some (?gs0, s)"
      by (intro removeLoop_exit) simp
    then have d: "derivePuzzle gs (Some n) s = Some (saveOriginalBoard ?gs0, s)"
      by (simp add: derivePuzzle_def)
    have "gridOf (saveOriginalBoard ?gs0) (board (saveOriginalBoard ?gs0)) = gridOf ?gs0 (board ?gs0)"
      using derived_state(3) [OF assms zeroedFrom_refl [OF c(1)]] .
    then show "\<exists>gs'. derivePuzzle gs (Some n) s = Some (gs', s)
        \<and> gridOf gs' (board gs') = gridOf gs (solution gs)"
      using d c(2) by simp
  }
  {
    assume neg: "n < 0"
    have "removeLoop ?gs0 0 (Some n) s = None"
      using removeLoop_negative [of ?gs0 0 n s] neg c(1)
      by (cases "removeLoop ?gs0 0 (Some n) s") auto
    then show "derivePuzzle gs (Some n) s = None" by (simp add: derivePuzzle_def)
  }
  {
    fix name k
    assume "difficulties name = Some k"
    then have "k \<in> {40, 30, 20, 15, 12, 8}"
      by (auto simp: difficulties_def split: if_splits)
    then show "0 \<le> k" "k \<le> 81" by auto
  }
qed

theorem derivePuzzle_no_clue_check_witness:
  "solutionStored sampleState
   \<and> puzzleOf (derivePuzzle sampleState (Some 82) sweep) = Some sampleSolution
   \<and> derivePuzzle sampleState (Some (- 1)) sweep = None
   \<and> difficulties ''extreme'' = Some 8"
  using derivePuzzle_no_clue_check [OF sampleState_facts(1), of 82 sweep]
    derivePuzzle_no_clue_check [OF sampleState_facts(1), of "- 1" sweep]
    sampleState_facts(1,2)
  by (auto simp: puzzleOf_def difficulties_def)

text \<open>
  C5 as stated fails: given the clue count 100, the derivation rejects nothing and returns
  a puzzle, the complete solution.
\<close>

theorem derivePuzzle_out_of_range_counterexample:
  "puzzleOf (derivePuzzle sampleState (Some 100) (constSource 0)) = Some sampleSolution"
proof -
  let ?gs0 = "copySolutionToBoard sampleState"
  note c = copySolutionToBoard_spec [OF sampleState_facts(1)]
  have "removeLoop ?gs0 0 (Some 100) (constSource 0) = Some (?gs0, constSource 0)"
    by (intro removeLoop_exit) simp
  then have "derivePuzzle sampleState (Some 100) (constSource 0) = Some (saveOriginalBoard ?gs0, constSource 0)"
    by (simp add: derivePuzzle_def)
  moreover have "gridOf (saveOriginalBoard ?gs0) (board (saveOriginalBoard ?gs0)) = sampleSolution"
    using derived_state(3) [OF sampleState_facts(1) zeroedFrom_refl [OF c(1)]] c(2)
      sampleState_facts(2) by simp
  ultimately show ?thesis by (simp add: puzzleOf_def)
qed

section \<open>Facts about the player operations\<close>

lemma sessionOk_parts:
  assumes "sessionOk gs"
  shows "length (board gs) = 9" "length (solution gs) = 9" "length (originalBoard gs) = 9"
    and "distinct (board gs)"
    and "set (board gs) \<inter> set (solution gs) = {}"
    and "set (board gs) \<inter> set (originalBoard gs) = {}"
    and "\<forall>a \<in> set (board gs). length (rowStore gs a) = 9"
    and "\<forall>a \<in> set (solution gs). length (rowStore gs a) = 9"
    and "selectedOnGrid gs"
    and "boardOk gs"
  using assms unfolding sessionOk_def boardOk_def by auto

lemma board_row_mem: "sessionOk gs \<Longrightarrow> r < 9 \<Longrightarrow> board gs ! r \<in> set (board gs)"
  by (simp add: sessionOk_parts(1))

lemma board_row_not_solution: "sessionOk gs \<Longrightarrow> r < 9 \<Longrightarrow> board gs ! r \<notin> set (solution gs)"
  using board_row_mem [of gs r] sessionOk_parts(5) [of gs] by blast

lemma board_row_not_original: "sessionOk gs \<Longrightarrow> r < 9 \<Longrightarrow> board gs ! r \<notin> set (originalBoard gs)"
  using board_row_mem [of gs r] sessionOk_parts(6) [of gs] by blast

text \<open>A state that differs from a well-formed one only outside the grids is well formed.\<close>

lemma sessionOk_same_heap:
  assumes "sessionOk gs" "rowStore gs' = rowStore gs" "nextAddr gs' = nextAddr gs"
    "board gs' = board gs" "solution gs' = solution gs" "originalBoard gs' = originalBoard gs"
    "selectedOnGrid gs'"
  shows "sessionOk gs'"
  using assms unfolding sessionOk_def by simp

lemma sessionOk_writeCell:
  assumes ok: "sessionOk gs" and r: "r < 9"
  shows "sessionOk (writeCell gs (board gs) r c v)"
    and "gridOf (writeCell gs (board gs) r c v) (solution gs) = gridOf gs (solution gs)"
    and "gridOf (writeCell gs (board gs) r c v) (originalBoard gs) = gridOf gs (originalBoard gs)"
    and "gridOf (writeCell gs (board gs) r c v) (board gs) = setCell (gridOf gs (board gs)) r c v"
proof -
  show "sessionOk (writeCell gs (board gs) r c v)"
    using ok unfolding sessionOk_def selectedOnGrid_def writeCell_def by auto
  show "gridOf (writeCell gs (board gs) r c v) (solution gs) = gridOf gs (solution gs)"
    using board_row_not_solution [OF ok r] by (rule gridOf_writeCell_other)
  show "gridOf (writeCell gs (board gs) r c v) (originalBoard gs) = gridOf gs (originalBoard gs)"
    using board_row_not_original [OF ok r] by (rule gridOf_writeCell_other)
  show "gridOf (writeCell gs (board gs) r c v) (board gs) = setCell (gridOf gs (board gs)) r c v"
    using sessionOk_parts(1,4) [OF ok] r by (intro gridOf_writeCell_same) simp_all
qed

text \<open>
  What each player operation keeps: the state stays well formed, the solution and the
  snapshot are the same references and denote the same grids.
\<close>

lemma keeps_refl: "sessionOk gs \<Longrightarrow> keeps gs gs"
  by (simp add: keeps_def)

lemma keeps_trans: "keeps gs gs1 \<Longrightarrow> keeps gs1 gs2 \<Longrightarrow> keeps gs gs2"
  unfolding keeps_def by metis

lemma keeps_writeCell:
  assumes "sessionOk gs" "r < 9"
  shows "keeps gs (writeCell gs (board gs) r c v)"
  using sessionOk_writeCell(1-3) [OF assms, of c v]
  by (simp add: keeps_def writeCell_def gridOf_def)

lemma keeps_same_heap:
  assumes "sessionOk gs" "rowStore gs' = rowStore gs" "nextAddr gs' = nextAddr gs"
    "board gs' = board gs" "solution gs' = solution gs" "originalBoard gs' = originalBoard gs"
    "selectedOnGrid gs'"
  shows "keeps gs gs'"
  using sessionOk_same_heap [OF assms] assms(2-6) by (simp add: keeps_def gridOf_def)

lemma keeps_selectCell: "sessionOk gs \<Longrightarrow> r < 9 \<Longrightarrow> c < 9 \<Longrightarrow> keeps gs (selectCell gs r c)"
  by (rule keeps_same_heap)
    (simp_all add: selectCell_def Let_def selectedOnGrid_def sessionOk_parts(9) [unfolded selectedOnGrid_def])

lemma keeps_toggleNoteMode: "sessionOk gs \<Longrightarrow> keeps gs (toggleNoteMode gs)"
  by (rule keeps_same_heap)
    (simp_all add: toggleNoteMode_def Let_def selectedOnGrid_def sessionOk_parts(9) [unfolded selectedOnGrid_def])

lemma keeps_eraseCell:
  assumes ok: "sessionOk gs"
  shows "keeps gs (eraseCell gs (selectedCell gs))"
proof (cases "selectedCell gs")
  case None
  then show ?thesis using ok by (simp add: eraseCell_def keeps_refl)
next
  case (Some p)
  obtain r c where p: "p = (r, c)" by (cases p)
  have "r < 9" using sessionOk_parts(9) [OF ok] Some p by (simp add: selectedOnGrid_def)
  then show ?thesis
    using Some p keeps_writeCell [OF ok, of r c 0] keeps_refl [OF ok] by (simp add: eraseCell_def)
qed

lemma enterNumber_unfold:
  assumes "\<not> notesMode gs"
  shows "\<exists>gs1. rowStore gs1 = rowStore gs \<and> nextAddr gs1 = nextAddr gs \<and> board gs1 = board gs
      \<and> solution gs1 = solution gs \<and> originalBoard gs1 = originalBoard gs
      \<and> selectedCell gs1 = selectedCell gs \<and> score gs1 = score gs \<and> mistakes gs1 = mistakes gs
      \<and> errorCells gs1 = errorCells gs
      \<and> enterNumber gs (Some (r, c)) v =
          (let gs3 = writeCell gs1 (board gs1) r c v in
           if v \<noteq> readCell gs3 (solution gs3) r c
           then gs3\<lparr>mistakes := mistakes gs3 + 1, errorCells := insert (r, c) (errorCells gs3)\<rparr>
           else gs3\<lparr>score := score gs3 + 10, errorCells := errorCells gs3 - {(r, c)}\<rparr>)"
  using assms
  by (intro exI [of _ "(if \<not> timerStarted gs then gs\<lparr>timerStarted := True\<rparr> else gs)
        \<lparr>cellNotes := (cellNotes (if \<not> timerStarted gs then gs\<lparr>timerStarted := True\<rparr> else gs))
            ((r, c) := None)\<rparr>"])
    (simp add: enterNumber_def Let_def)

lemma keeps_enterNumber:
  assumes ok: "sessionOk gs"
  shows "keeps gs (enterNumber gs (selectedCell gs) v)"
proof (cases "selectedCell gs")
  case None
  then show ?thesis using ok by (simp add: enterNumber_def keeps_refl)
next
  case (Some p)
  obtain r c where p: "p = (r, c)" by (cases p)
  have r: "r < 9" using sessionOk_parts(9) [OF ok] Some p by (simp add: selectedOnGrid_def)
  show ?thesis
  proof (cases "notesMode gs")
    case True
    have "keeps gs (enterNumber gs (Some (r, c)) v)"
      using True by (intro keeps_same_heap [OF ok])
        (simp_all add: enterNumber_def Let_def selectedOnGrid_def
          sessionOk_parts(9) [OF ok, unfolded selectedOnGrid_def])
    then show ?thesis using Some p by simp
  next
    case False
    obtain gs1 where g: "rowStore gs1 = rowStore gs" "nextAddr gs1 = nextAddr gs"
        "board gs1 = board gs" "solution gs1 = solution gs" "originalBoard gs1 = originalBoard gs"
        "selectedCell gs1 = selectedCell gs"
        "enterNumber gs (Some (r, c)) v =
          (let gs3 = writeCell gs1 (board gs1) r c v in
           if v \<noteq> readCell gs3 (solution gs3) r c
           then gs3\<lparr>mistakes := mistakes gs3 + 1, errorCells := insert (r, c) (errorCells gs3)\<rparr>
           else gs3\<lparr>score := score gs3 + 10, errorCells := errorCells gs3 - {(r, c)}\<rparr>)"
      using enterNumber_unfold [OF False, of r c v] by blast
    have sel1: "selectedOnGrid gs1"
      using sessionOk_parts(9) [OF ok] g(6) by (simp add: selectedOnGrid_def)
    have k1: "keeps gs gs1"
      using keeps_same_heap [OF ok g(1-5) sel1] .
    then have ok1: "sessionOk gs1" by (simp add: keeps_def)
    let ?gs3 = "writeCell gs1 (board gs1) r c v"
    have k3: "keeps gs1 ?gs3" using keeps_writeCell [OF ok1 r] .
    then have ok3: "sessionOk ?gs3" by (simp add: keeps_def)
    have "keeps ?gs3 (enterNumber gs (Some (r, c)) v)"
      unfolding g(7) Let_def
      by (intro keeps_same_heap [OF ok3])
        (simp_all add: selectedOnGrid_def sessionOk_parts(9) [OF ok3, unfolded selectedOnGrid_def])
    then show ?thesis
      using keeps_trans [OF k1 keeps_trans [OF k3]] Some p by simp
  qed
qed

lemma keeps_giveHint:
  assumes ok: "sessionOk gs"
  shows "keeps gs (fst (giveHint gs s))"
proof (cases "hintsUsed gs \<ge> maxHints gs")
  case True
  then show ?thesis using ok by (simp add: giveHint_def keeps_refl)
next
  case False
  let ?es = "filter (\<lambda>(row, col). readCell gs (board gs) row col = 0) allCells"
  show ?thesis
  proof (cases "length ?es = 0")
    case True
    then show ?thesis using ok False by (simp add: giveHint_def keeps_refl)
  next
    case nonempty: False
    obtain k s' where rk: "randomInt (length ?es) s = (k, s')"
      by (cases "randomInt (length ?es) s")
    have "k < length ?es"
      using randomInt_less [of "length ?es" s] rk nonempty by simp
    then have "?es ! k \<in> set allCells"
      using nth_mem [of k ?es] by auto
    moreover obtain r c where rc: "?es ! k = (r, c)" by (cases "?es ! k")
    ultimately have cell: "?es ! k = (r, c)" "r < 9" "c < 9"
      using mem_allCells [of r c] by simp_all
    let ?gs1 = "writeCell gs (board gs) r c (readCell gs (solution gs) r c)"
    have k1: "keeps gs ?gs1" using keeps_writeCell [OF ok cell(2)] .
    then have ok1: "sessionOk ?gs1" by (simp add: keeps_def)
    have eq: "fst (giveHint gs s) = ?gs1\<lparr>hintsUsed := hintsUsed ?gs1 + 1, score := score ?gs1 + 5\<rparr>"
      using False nonempty rk cell(1) by (simp add: giveHint_def Let_def)
    have "keeps ?gs1 (fst (giveHint gs s))"
      unfolding eq
      by (intro keeps_same_heap [OF ok1])
        (simp_all add: selectedOnGrid_def sessionOk_parts(9) [OF ok1, unfolded selectedOnGrid_def])
    then show ?thesis using keeps_trans [OF k1] by simp
  qed
qed

lemma resetProgress_spec:
  assumes ok: "sessionOk gs"
  shows "keeps gs (resetProgress gs)"
    and "gridOf (resetProgress gs) (board (resetProgress gs)) = gridOf gs (originalBoard gs)"
proof -
  let ?n = "nextAddr gs"
  have parts: "length (originalBoard gs) = 9" "length (solution gs) = 9"
      "distinct (solution gs @ originalBoard gs)"
      "\<forall>a \<in> set (solution gs @ originalBoard gs). a < ?n \<and> length (rowStore gs a) = 9"
      "selectedOnGrid gs"
    using ok unfolding sessionOk_def by auto
  obtain b gs1 where c1: "copyRows (originalBoard gs) gs = (b, gs1)"
    by (cases "copyRows (originalBoard gs) gs")
  note s1 = copyRows_spec [OF c1, unfolded parts(1)]
  have b: "b = [?n ..< ?n + 9]" using s1 by blast
  have f1: "board gs1 = board gs \<and> solution gs1 = solution gs
      \<and> originalBoard gs1 = originalBoard gs \<and> selectedCell gs1 = selectedCell gs
      \<and> nextAddr gs1 = ?n + 9 \<and> rowStore gs1 = rowStore gs1"
    using store_update_fields [where ?g2.0 = gs1 and ?g1.0 = gs and st = "rowStore gs1"
        and n = "?n + 9"] s1 by metis
  have old1: "\<forall>a < ?n. rowStore gs1 a = rowStore gs a" using s1 by blast
  have "\<forall>a \<in> set (originalBoard gs). a < ?n" using parts(4) by simp
  then have m1: "map (rowStore gs1) b = map (rowStore gs) (originalBoard gs)" using s1 by blast
  let ?gs' = "resetProgress gs"
  have eq: "?gs' = gs1\<lparr>board := b, mistakes := 0, score := 0, timerSeconds := 0,
      errorCells := {}, cellNotes := Map.empty\<rparr>"
    unfolding resetProgress_def c1 by simp
  have fld: "board ?gs' = b" "solution ?gs' = solution gs" "originalBoard ?gs' = originalBoard gs"
      "rowStore ?gs' = rowStore gs1" "nextAddr ?gs' = ?n + 9" "selectedCell ?gs' = selectedCell gs"
    unfolding eq using f1 by simp_all
  have lenb: "\<forall>a \<in> set b. length (rowStore gs1 a) = 9"
    using rows_length_map [OF m1] parts(4) by simp
  have keep: "rowStore gs1 a = rowStore gs a" if "a \<in> set (solution gs @ originalBoard gs)" for a
    using old1 parts(4) that by blast
  have g1: "gridOf ?gs' (solution gs) = gridOf gs (solution gs)"
    unfolding gridOf_def fld(4) using keep by (intro map_cong) auto
  have g2: "gridOf ?gs' (originalBoard gs) = gridOf gs (originalBoard gs)"
    unfolding gridOf_def fld(4) using keep by (intro map_cong) auto
  have lt: "\<forall>a \<in> set (solution gs). a < ?n" "\<forall>a \<in> set (originalBoard gs). a < ?n"
    using parts(4) by simp_all
  have "set b \<inter> set (solution gs) = {}" "set b \<inter> set (originalBoard gs) = {}"
    using lt b by fastforce+
  then have "distinct (b @ solution gs @ originalBoard gs)"
    using parts(3) b by auto
  moreover have "\<forall>a \<in> set (b @ solution gs @ originalBoard gs).
      a < ?n + 9 \<and> length (rowStore gs1 a) = 9"
  proof
    fix a assume "a \<in> set (b @ solution gs @ originalBoard gs)"
    then consider "a \<in> set b" | "a \<in> set (solution gs @ originalBoard gs)" by auto
    then show "a < ?n + 9 \<and> length (rowStore gs1 a) = 9"
    proof cases
      case 1
      then show ?thesis using lenb b by simp
    next
      case 2
      then have "a < ?n \<and> length (rowStore gs a) = 9" using parts(4) by blast
      then show ?thesis using keep [OF 2] by simp
    qed
  qed
  moreover have "selectedOnGrid ?gs'"
    using parts(5) fld(6) by (simp add: selectedOnGrid_def)
  ultimately have "sessionOk ?gs'"
    unfolding sessionOk_def fld using parts(1,2) b by simp
  then show "keeps gs ?gs'"
    unfolding keeps_def using g1 g2 fld(2,3) by simp
  show "gridOf ?gs' (board ?gs') = gridOf gs (originalBoard gs)"
    unfolding fld(1) gridOf_def fld(4) using m1 .
qed

lemma keeps_step:
  assumes "sessionOk gs" "onGrid a"
  shows "keeps gs (fst (step (gs, s) a))"
proof (cases a)
  case (Select r c)
  then show ?thesis using assms keeps_selectCell [of gs r c] by simp
next
  case (Enter v)
  then show ?thesis using keeps_enterNumber [OF assms(1)] by simp
next
  case Erase
  then show ?thesis using keeps_eraseCell [OF assms(1)] by simp
next
  case Hint
  then show ?thesis using keeps_giveHint [OF assms(1)] by simp
next
  case ToggleNote
  then show ?thesis using keeps_toggleNoteMode [OF assms(1)] by simp
next
  case Retry
  then show ?thesis using resetProgress_spec(1) [OF assms(1)] by simp
qed

lemma keeps_play:
  "sessionOk gs \<Longrightarrow> list_all onGrid acts \<Longrightarrow> keeps gs (fst (play (gs, s) acts))"
proof (induction acts arbitrary: gs s)
  case Nil
  then show ?case by (simp add: play_def keeps_refl)
next
  case (Cons a acts)
  obtain gs1 s1 where st: "step (gs, s) a = (gs1, s1)" by (cases "step (gs, s) a")
  have k1: "keeps gs gs1"
    using keeps_step [of gs a s] Cons.prems st by simp
  then have "sessionOk gs1" by (simp add: keeps_def)
  then have "keeps gs1 (fst (play (gs1, s1) acts))"
    using Cons.IH Cons.prems(2) by simp
  then show ?case
    using keeps_trans [OF k1] st by (simp add: play_def)
qed

lemma isPuzzleComplete_grids:
  assumes ok: "sessionOk gs"
  shows "isPuzzleComplete gs = (gridOf gs (board gs) = gridOf gs (solution gs))"
proof -
  note p = sessionOk_parts [OF ok]
  have rows: "(rowStore gs (board gs ! i) = rowStore gs (solution gs ! i))
      = (\<forall>j<9. rowStore gs (board gs ! i) ! j = rowStore gs (solution gs ! i) ! j)"
    if i: "i < 9" for i
  proof -
    have "length (rowStore gs (board gs ! i)) = 9" "length (rowStore gs (solution gs ! i)) = 9"
      using p(1,2,7,8) i by simp_all
    then show ?thesis by (auto simp: list_eq_iff_nth_eq)
  qed
  have "(gridOf gs (board gs) = gridOf gs (solution gs))
      = (\<forall>i<9. rowStore gs (board gs ! i) = rowStore gs (solution gs ! i))"
    using p(1,2) by (simp add: gridOf_def list_eq_iff_nth_eq)
  also have "\<dots> = (\<forall>i<9. \<forall>j<9. readCell gs (board gs) i j = readCell gs (solution gs) i j)"
    using rows by (simp add: readCell_def)
  also have "\<dots> = isPuzzleComplete gs"
    unfolding isPuzzleComplete_def bex_allCells by auto
  finally show ?thesis by simp
qed

lemma solution_cell_after_write:
  assumes ok: "sessionOk gs" and r: "r < 9" and i: "i < 9"
  shows "readCell (writeCell gs (board gs) r c v) (solution gs) i j = readCell gs (solution gs) i j"
proof -
  have "solution gs ! i \<in> set (solution gs)"
    using sessionOk_parts(2) [OF ok] i by simp
  then have "solution gs ! i \<noteq> board gs ! r"
    using board_row_not_solution [OF ok r] by auto
  then show ?thesis by (simp add: readCell_def writeCell_def)
qed

section \<open>The session: claims C8, C9 and C10\<close>

lemma sessionOk_sampleSession: "sessionOk sampleSession"
  by code_simp

lemma sampleSession_noteless: "\<not> notesMode sampleSession"
  by code_simp

text \<open>
  C8.  Outside note mode, entering the value \<open>v\<close> at a cell of the grid takes the branch
  for a correct move (the score grows by 10, no mistake is counted, the cell is not an
  error cell) exactly when \<open>v\<close> equals the solution's value at the cell, and the branch for
  an incorrect move (one mistake more, the cell an error cell) exactly when it differs; the
  write into the board leaves the solution as it was.  Completion detection returns true
  exactly when board and solution are the same grid.
\<close>

theorem enterNumber_classifies:
  assumes "sessionOk gs" "r < 9" "c < 9" "\<not> notesMode gs"
  shows "((score (enterNumber gs (Some (r, c)) v) = score gs + 10
           \<and> mistakes (enterNumber gs (Some (r, c)) v) = mistakes gs
           \<and> (r, c) \<notin> errorCells (enterNumber gs (Some (r, c)) v))
          = (v = readCell gs (solution gs) r c))
       \<and> ((mistakes (enterNumber gs (Some (r, c)) v) = mistakes gs + 1
            \<and> score (enterNumber gs (Some (r, c)) v) = score gs
            \<and> (r, c) \<in> errorCells (enterNumber gs (Some (r, c)) v))
          = (v \<noteq> readCell gs (solution gs) r c))
       \<and> solution (enterNumber gs (Some (r, c)) v) = solution gs
       \<and> gridOf (enterNumber gs (Some (r, c)) v) (solution gs) = gridOf gs (solution gs)
       \<and> isPuzzleComplete gs = (gridOf gs (board gs) = gridOf gs (solution gs))
       \<and> isPuzzleComplete gs
          = (\<forall>(i, j) \<in> set allCells. readCell gs (board gs) i j = readCell gs (solution gs) i j)"
proof -
  let ?gs' = "enterNumber gs (Some (r, c)) v"
  obtain gs1 where g: "rowStore gs1 = rowStore gs" "nextAddr gs1 = nextAddr gs"
      "board gs1 = board gs" "solution gs1 = solution gs" "originalBoard gs1 = originalBoard gs"
      "selectedCell gs1 = selectedCell gs" "score gs1 = score gs" "mistakes gs1 = mistakes gs"
      "errorCells gs1 = errorCells gs"
      "?gs' =
          (let gs3 = writeCell gs1 (board gs1) r c v in
           if v \<noteq> readCell gs3 (solution gs3) r c
           then gs3\<lparr>mistakes := mistakes gs3 + 1, errorCells := insert (r, c) (errorCells gs3)\<rparr>
           else gs3\<lparr>score := score gs3 + 10, errorCells := errorCells gs3 - {(r, c)}\<rparr>)"
    using enterNumber_unfold [OF assms(4), of r c v] by blast
  have ok1: "sessionOk gs1"
    using sessionOk_same_heap [OF assms(1) g(1-5)] sessionOk_parts(9) [OF assms(1)] g(6)
    by (simp add: selectedOnGrid_def)
  let ?gs3 = "writeCell gs1 (board gs1) r c v"
  have sol3: "solution ?gs3 = solution gs" using g(4) by (simp add: writeCell_def)
  have rd: "readCell ?gs3 (solution ?gs3) r c = readCell gs (solution gs) r c"
    unfolding sol3 using solution_cell_after_write [OF ok1 assms(2,2), of c v c] g(1,4)
    by (simp add: readCell_def)
  have f3: "score ?gs3 = score gs" "mistakes ?gs3 = mistakes gs" "errorCells ?gs3 = errorCells gs"
    using g(7-9) by (simp_all add: writeCell_def)
  have eq: "?gs' =
      (if v \<noteq> readCell gs (solution gs) r c
       then ?gs3\<lparr>mistakes := mistakes gs + 1, errorCells := insert (r, c) (errorCells gs)\<rparr>
       else ?gs3\<lparr>score := score gs + 10, errorCells := errorCells gs - {(r, c)}\<rparr>)"
    unfolding g(10) Let_def rd f3 by (rule refl)
  have correct: "(score ?gs' = score gs + 10 \<and> mistakes ?gs' = mistakes gs
        \<and> (r, c) \<notin> errorCells ?gs') = (v = readCell gs (solution gs) r c)"
    unfolding eq using g(7-9) by (simp add: writeCell_def)
  have incorrect: "(mistakes ?gs' = mistakes gs + 1 \<and> score ?gs' = score gs
        \<and> (r, c) \<in> errorCells ?gs') = (v \<noteq> readCell gs (solution gs) r c)"
    unfolding eq using g(7-9) by (simp add: writeCell_def)
  have s1: "solution ?gs' = solution gs" unfolding eq using g(4) by (simp add: writeCell_def)
  have "gridOf ?gs3 (solution gs) = gridOf gs (solution gs)"
    using sessionOk_writeCell(2) [OF ok1 assms(2), of c v] g(1,4) by (simp add: gridOf_def)
  moreover have "gridOf ?gs' (solution gs) = gridOf ?gs3 (solution gs)"
    unfolding eq by (simp add: gridOf_def)
  ultimately have s2: "gridOf ?gs' (solution gs) = gridOf gs (solution gs)" by simp
  have c1: "isPuzzleComplete gs = (gridOf gs (board gs) = gridOf gs (solution gs))"
    using isPuzzleComplete_grids [OF assms(1)] .
  have c2: "isPuzzleComplete gs
      = (\<forall>(i, j) \<in> set allCells. readCell gs (board gs) i j = readCell gs (solution gs) i j)"
    unfolding isPuzzleComplete_def ball_allCells bex_allCells by auto
  show ?thesis
    using correct incorrect s1 s2 c1 c2 by blast
qed

lemma sampleSession_values:
  "readCell sampleSession (solution sampleSession) 0 0 = 1"
  "readCell sampleSession (board sampleSession) 0 0 = 0"
  "readCell sampleSession (originalBoard sampleSession) 0 0 = 0"
  "score sampleSession = 0" "mistakes sampleSession = 0"
  "\<not> isPuzzleComplete sampleSession"
  "isPuzzleComplete (enterNumber sampleSession (Some (0, 0)) 1)"
  by code_simp+

theorem enterNumber_classifies_witness:
  "sessionOk sampleSession \<and> \<not> notesMode sampleSession
   \<and> score (enterNumber sampleSession (Some (0, 0)) 1) = 10
   \<and> mistakes (enterNumber sampleSession (Some (0, 0)) 1) = 0
   \<and> mistakes (enterNumber sampleSession (Some (0, 0)) 5) = 1
   \<and> score (enterNumber sampleSession (Some (0, 0)) 5) = 0
   \<and> \<not> isPuzzleComplete sampleSession
   \<and> isPuzzleComplete (enterNumber sampleSession (Some (0, 0)) 1)"
  using enterNumber_classifies [OF sessionOk_sampleSession _ _ sampleSession_noteless, of 0 0 1]
    enterNumber_classifies [OF sessionOk_sampleSession _ _ sampleSession_noteless, of 0 0 5]
    sessionOk_sampleSession sampleSession_noteless sampleSession_values
  by simp

text \<open>
  C9.  Right after the derivation the snapshot and the board are the same grid.  After
  every sequence of player operations on the grid (select, enter, erase, hint, note mode,
  retry) the snapshot still denotes that grid, and resetProgress makes the board that grid
  again and leaves the snapshot as it was.
\<close>

theorem resetProgress_round_trip:
  assumes "solutionStored gs0" "selectedOnGrid gs0" "derivePuzzle gs0 cc s0 = Some (gs, s)"
    "list_all onGrid acts"
  shows "gridOf gs (originalBoard gs) = gridOf gs (board gs)
     \<and> originalBoard (fst (play (gs, s) acts)) = originalBoard gs
     \<and> gridOf (fst (play (gs, s) acts)) (originalBoard gs) = gridOf gs (board gs)
     \<and> gridOf (resetProgress (fst (play (gs, s) acts)))
          (board (resetProgress (fst (play (gs, s) acts)))) = gridOf gs (board gs)
     \<and> originalBoard (resetProgress (fst (play (gs, s) acts))) = originalBoard gs
     \<and> gridOf (resetProgress (fst (play (gs, s) acts))) (originalBoard gs) = gridOf gs (board gs)"
proof -
  let ?gs' = "fst (play (gs, s) acts)"
  note r = derivePuzzle_result [OF assms(1,3)]
  have ok: "sessionOk gs" using r(6) [OF assms(2)] .
  have snap: "gridOf gs (originalBoard gs) = gridOf gs (board gs)" using r(3) .
  have k: "keeps gs ?gs'" using keeps_play [OF ok assms(4)] .
  then have ok': "sessionOk ?gs'" by (simp add: keeps_def)
  have k2: "keeps gs (resetProgress ?gs')"
    using keeps_trans [OF k resetProgress_spec(1) [OF ok']] .
  have "gridOf (resetProgress ?gs') (board (resetProgress ?gs')) = gridOf ?gs' (originalBoard ?gs')"
    using resetProgress_spec(2) [OF ok'] .
  then show ?thesis
    using snap k k2 unfolding keeps_def by metis
qed

theorem resetProgress_round_trip_witness:
  "\<exists>gs s. derivePuzzle sampleState (Some 30) sweep = Some (gs, s)
     \<and> gridOf (fst (play (gs, s) [Select 0 0, Enter 5, Hint, Erase, ToggleNote])) (originalBoard gs)
         = gridOf gs (board gs)
     \<and> gridOf (resetProgress (fst (play (gs, s) [Select 0 0, Enter 5, Hint, Erase, ToggleNote])))
          (board (resetProgress (fst (play (gs, s) [Select 0 0, Enter 5, Hint, Erase, ToggleNote]))))
         = gridOf gs (board gs)"
proof -
  have "full (gridOf sampleState (solution sampleState))"
    using sampleState_facts(2) full_sampleSolution by simp
  then obtain gs s where d: "derivePuzzle sampleState (Some 30) sweep = Some (gs, s)"
    using derivePuzzle_returns [OF sampleState_facts(1), of 30 sweep 51] sweep_51 by auto
  have sel: "selectedOnGrid sampleState"
    using sampleState_facts(3) by (simp add: selectedOnGrid_def)
  have acts: "list_all onGrid [Select 0 0, Enter 5, Hint, Erase, ToggleNote]" by simp
  show ?thesis
    using resetProgress_round_trip [OF sampleState_facts(1) sel d acts] d by blast
qed

text \<open>
  C10.  Where the board holds the solution's value, erasing leaves the whole state
  unchanged, whatever the snapshot says about the cell: eraseCell compares the board with
  the solution and never reads the snapshot.  So a digit that the player entered correctly
  cannot be erased; and where that value is not 0 the cell cannot be selected either.
\<close>

theorem eraseCell_keeps_correct_value:
  assumes "readCell gs (board gs) r c = readCell gs (solution gs) r c"
  shows "eraseCell gs (Some (r, c)) = gs
       \<and> (\<forall>ob. eraseCell (gs\<lparr>originalBoard := ob\<rparr>) (Some (r, c)) = gs\<lparr>originalBoard := ob\<rparr>)
       \<and> (readCell gs (board gs) r c \<noteq> 0 \<longrightarrow> selectCell gs r c = gs)"
  using assms by (simp add: eraseCell_def selectCell_def readCell_def)

lemma sampleSession_entered:
  "readCell (enterNumber sampleSession (Some (0, 0)) 1)
     (board (enterNumber sampleSession (Some (0, 0)) 1)) 0 0 = 1"
  "readCell (enterNumber sampleSession (Some (0, 0)) 1)
     (solution (enterNumber sampleSession (Some (0, 0)) 1)) 0 0 = 1"
  "readCell (enterNumber sampleSession (Some (0, 0)) 1)
     (originalBoard (enterNumber sampleSession (Some (0, 0)) 1)) 0 0 = 0"
  by code_simp+

text \<open>
  In the sample session the cell (0,0) is empty in the snapshot; the player enters the
  correct digit 1; erasing the cell then changes nothing.
\<close>

theorem eraseCell_keeps_correct_value_witness:
  "readCell (enterNumber sampleSession (Some (0, 0)) 1)
     (originalBoard (enterNumber sampleSession (Some (0, 0)) 1)) 0 0 = 0
   \<and> readCell (enterNumber sampleSession (Some (0, 0)) 1)
     (board (enterNumber sampleSession (Some (0, 0)) 1)) 0 0 = 1
   \<and> eraseCell (enterNumber sampleSession (Some (0, 0)) 1) (Some (0, 0))
     = enterNumber sampleSession (Some (0, 0)) 1
   \<and> selectCell (enterNumber sampleSession (Some (0, 0)) 1) 0 0
     = enterNumber sampleSession (Some (0, 0)) 1"
  using eraseCell_keeps_correct_value [of "enterNumber sampleSession (Some (0, 0)) 1" 0 0]
    sampleSession_entered by simp

section \<open>generatePuzzle as a whole\<close>

text \<open>
  The whole of generatePuzzle: whenever it returns, the session is well formed, the
  solution is complete and valid, the snapshot equals the board, and each cell of the
  board is 0 or the solution's value.
\<close>

lemma storeRows_solution:
  assumes wf: "wf_grid sol" and st: "storeRows sol gs = (a, gs1)"
  shows "solutionStored (gs1\<lparr>solution := a\<rparr>)"
    and "gridOf (gs1\<lparr>solution := a\<rparr>) a = sol"
    and "selectedCell (gs1\<lparr>solution := a\<rparr>) = selectedCell gs"
proof -
  have len: "length sol = 9" "\<forall>row \<in> set sol. length row = 9"
    using wf by (simp_all add: wf_grid_def list_all_iff)
  note sp = storeRows_spec [OF st, unfolded len(1)]
  have a: "a = [nextAddr gs ..< nextAddr gs + 9]" using sp by blast
  have f: "board gs1 = board gs \<and> solution gs1 = solution gs
      \<and> originalBoard gs1 = originalBoard gs \<and> selectedCell gs1 = selectedCell gs
      \<and> nextAddr gs1 = nextAddr gs + 9 \<and> rowStore gs1 = rowStore gs1"
    using store_update_fields [where ?g2.0 = gs1 and ?g1.0 = gs and st = "rowStore gs1"
        and n = "nextAddr gs + 9"] sp by metis
  have m: "map (rowStore gs1) a = sol" using sp by blast
  have "\<forall>row \<in> set (map (rowStore gs1) a). length row = 9" unfolding m using len(2) .
  then have rows: "\<forall>x \<in> set a. length (rowStore gs1 x) = 9" by simp
  show "solutionStored (gs1\<lparr>solution := a\<rparr>)"
    unfolding solutionStored_def using a f rows by simp
  show "gridOf (gs1\<lparr>solution := a\<rparr>) a = sol"
    using m by (simp add: gridOf_def)
  show "selectedCell (gs1\<lparr>solution := a\<rparr>) = selectedCell gs"
    using f by simp
qed

lemma generatePuzzle_session:
  assumes run: "generatePuzzle fuel d gs s = Some (gs', s')" and sel: "selectedOnGrid gs"
  shows "sessionOk gs'" and "solved (gridOf gs' (solution gs'))"
    and "gridOf gs' (originalBoard gs') = gridOf gs' (board gs')"
    and "\<forall>i<9. \<forall>j<9. gridOf gs' (board gs') ! i ! j = 0
           \<or> gridOf gs' (board gs') ! i ! j = gridOf gs' (solution gs') ! i ! j"
proof -
  obtain sol s1 where gen: "generateValidSudoku fuel s = Some (sol, s1)"
    using run unfolding generatePuzzle_def by (auto split: option.splits)
  obtain a gs1 where st: "storeRows sol gs = (a, gs1)" by (cases "storeRows sol gs")
  let ?gs2 = "gs1\<lparr>solution := a\<rparr>"
  have d: "derivePuzzle ?gs2 (difficulties d) s1 = Some (gs', s')"
    using run gen st unfolding generatePuzzle_def by simp
  have sv: "solved sol" using generateValidSudoku_result [OF gen] .
  then have wf: "wf_grid sol" by (simp add: solved_def)
  note ss = storeRows_solution [OF wf st]
  have sel2: "selectedOnGrid ?gs2" using sel ss(3) by (simp add: selectedOnGrid_def)
  note r = derivePuzzle_result [OF ss(1) d]
  have sol': "gridOf gs' (solution gs') = sol" using r(2) ss(2) by simp
  show "sessionOk gs'" using r(6) [OF sel2] .
  show "solved (gridOf gs' (solution gs'))" using sol' sv by simp
  show "gridOf gs' (originalBoard gs') = gridOf gs' (board gs')" using r(3) .
  show "\<forall>i<9. \<forall>j<9. gridOf gs' (board gs') ! i ! j = 0
           \<or> gridOf gs' (board gs') ! i ! j = gridOf gs' (solution gs') ! i ! j"
    using r(4) sol' ss(2) by simp
qed

end
